theory Spec2Isabelle
  imports Complex_Main "HOL-Library.Multiset"
begin

section \<open>pysvg: the chart-geometry core\<close>

text \<open>
  The program is Python 2 (\<^verbatim>\<open>print\<close> statements in \<^verbatim>\<open>filetext.py\<close> and
  \<^verbatim>\<open>svgelements.py\<close>): \<^verbatim>\<open>/\<close> between two integers is floor division, integers are
  unbounded, and a negative list index counts from the end of the list.

  Conventions of the embedding:
  \<^item> a raised exception or a call of \<^verbatim>\<open>sys.exit\<close> is the left summand of the result;
    \<open>SystemExit\<close> carries what was printed before the exit and the exit status;
  \<^item> the text of a printed message is named by a constructor of \<open>message\<close>;
  \<^item> a cell of the input table is the string token read from the file, and \<^verbatim>\<open>int(cell)\<close> is
    \<open>py_int\<close>;
  \<^item> command-line selectors (\<^verbatim>\<open>xcolumn\<close>, \<^verbatim>\<open>colorfld\<close>, \<^verbatim>\<open>yinc\<close>, ...) are taken after
    their \<^verbatim>\<open>int(...)\<close> coercion, as integers;
  \<^item> a Python float is a real number: rounding of IEEE doubles is not modelled;
  \<^item> SVG markup is not assembled: an emitted element is a record of the numbers and
    strings the source puts into it.
\<close>

subsection \<open>Exceptions and Python primitives\<close>

datatype message =
    NoSuchFile string
  | ForHelp
  | Banner
  | DocUrl
  | ValuesMustBeEqual
  | IncorrectInputData
  | ColumnsMustMatchSelectors
  | ValuesMustBeNumeric

datatype exn =
    IndexError
  | ValueError
  | ZeroDivisionError
  | UnboundLocalError
  | SystemExit "message list" int

text \<open>
  Python resolves the index \<open>i\<close> of a sequence of length \<open>n\<close>: from the front when
  it is not negative, from the end when it is, and out of range otherwise.
\<close>

definition py_index :: "nat \<Rightarrow> int \<Rightarrow> nat option" where
  "py_index n i =
     (if 0 \<le> i \<and> i < int n then Some (nat i)
      else if - int n \<le> i \<and> i < 0 then Some (nat (int n + i))
      else None)"

text \<open>Reading \<^verbatim>\<open>xs[i]\<close> and the assignment \<^verbatim>\<open>xs[i] = v\<close>.\<close>

definition py_get :: "'a list \<Rightarrow> int \<Rightarrow> exn + 'a" where
  "py_get xs i =
     (case py_index (length xs) i of None \<Rightarrow> Inl IndexError | Some k \<Rightarrow> Inr (xs ! k))"

definition py_set :: "'a list \<Rightarrow> int \<Rightarrow> 'a \<Rightarrow> exn + 'a list" where
  "py_set xs i v =
     (case py_index (length xs) i of None \<Rightarrow> Inl IndexError | Some k \<Rightarrow> Inr (xs[k := v]))"

text \<open>
  \<^verbatim>\<open>int(s)\<close> on a string token: an optional sign and one or more decimal digits
  (a token produced by \<^verbatim>\<open>split()\<close> carries no white space); anything else raises
  \<^verbatim>\<open>ValueError\<close>, here \<open>None\<close>.
\<close>

definition is_digit :: "char \<Rightarrow> bool" where
  "is_digit c = (c \<in> set ''0123456789'')"

fun digits_val :: "string \<Rightarrow> int \<Rightarrow> int option" where
  "digits_val [] acc = Some acc"
| "digits_val (c # cs) acc =
     (if is_digit c then digits_val cs (acc * 10 + (int (of_char c) - 48)) else None)"

definition py_int :: "string \<Rightarrow> int option" where
  "py_int s =
     (case s of
        [] \<Rightarrow> None
      | c # cs \<Rightarrow>
          if c = CHR ''-'' then (if cs = [] then None else map_option uminus (digits_val cs 0))
          else if c = CHR ''+'' then (if cs = [] then None else digits_val cs 0)
          else digits_val (c # cs) 0)"

definition int_of_cell :: "string \<Rightarrow> exn + int" where
  "int_of_cell s = (case py_int s of None \<Rightarrow> Inl ValueError | Some v \<Rightarrow> Inr v)"

text \<open>Python 2 \<^verbatim>\<open>num / den\<close> on two integers: the floor of the quotient.\<close>

definition int_div :: "int \<Rightarrow> int \<Rightarrow> exn + int" where
  "int_div num den = (if den \<noteq> 0 then Inr (num div den) else Inl ZeroDivisionError)"

text \<open>Float division \<^verbatim>\<open>a / b\<close>.\<close>

definition float_div :: "real \<Rightarrow> real \<Rightarrow> exn + real" where
  "float_div num den = (if den \<noteq> 0 then Inr (num / den) else Inl ZeroDivisionError)"

text \<open>Sequencing of fallible steps: the first exception ends the computation.\<close>

definition bind :: "exn + 'a \<Rightarrow> ('a \<Rightarrow> exn + 'b) \<Rightarrow> exn + 'b" where
  "bind m f = (case m of Inl e \<Rightarrow> Inl e | Inr x \<Rightarrow> f x)"

text \<open>
  \<^verbatim>\<open>float(cell)\<close> is only reached by cells that \<^verbatim>\<open>int(cell)\<close> has accepted before
  (in \<^verbatim>\<open>Piechart.totalsum\<close>, which \<^verbatim>\<open>__init__\<close> calls, and in
  \<^verbatim>\<open>Scatterplot.getvariance\<close>): on such a token \<^verbatim>\<open>float\<close> gives the same number.
\<close>

definition float_of_cell :: "string \<Rightarrow> exn + real" where
  "float_of_cell c = bind (int_of_cell c) (\<lambda>n. Inr (real_of_int n))"

subsection \<open>\<^verbatim>\<open>filetext.readinputfile\<close>\<close>

text \<open>\<^verbatim>\<open>str.split()\<close> without argument: split on runs of white space, no empty token.\<close>

definition py_isspace :: "char \<Rightarrow> bool" where
  "py_isspace c = (of_char c \<in> set [32, 9, 10, 11, 12, 13 :: nat])"

fun split_aux :: "string \<Rightarrow> string \<Rightarrow> string list" where
  "split_aux cur [] = (if cur = [] then [] else [cur])"
| "split_aux cur (c # cs) =
     (if py_isspace c then (if cur = [] then split_aux [] cs else cur # split_aux [] cs)
      else split_aux (cur @ [c]) cs)"

definition split :: "string \<Rightarrow> string list" where
  "split s = split_aux [] s"

text \<open>
  \<^verbatim>\<open>datafile.readline()\<close>: the text up to and including the next line feed, and the
  rest of the file; the empty string at the end of the file.
\<close>

fun readline :: "string \<Rightarrow> string \<times> string" where
  "readline [] = ([], [])"
| "readline (c # cs) =
     (if c = CHR 0x0A then ([c], cs)
      else (case readline cs of (l, r) \<Rightarrow> (c # l, r)))"

lemma readline_rest_le: "length (snd (readline s)) \<le> length s"
  by (induction s) (auto split: prod.splits)

lemma readline_nonempty: "s \<noteq> [] \<Longrightarrow> fst (readline s) \<noteq> []"
  by (cases s) (auto split: prod.splits)

lemma readline_rest_less: "s \<noteq> [] \<Longrightarrow> length (snd (readline s)) < length s"
proof (cases s)
  case Nil
  assume "s \<noteq> []"
  with Nil show ?thesis by simp
next
  case (Cons c cs)
  have "length (snd (readline cs)) \<le> length cs" by (rule readline_rest_le)
  with Cons show ?thesis by (auto split: prod.splits)
qed

text \<open>
  The reading loop
  \<^verbatim>\<open>while fileline != "": cad1 = fileline.split(); cad.append(cad1); fileline = datafile.readline()\<close>.
  Its state is the line just read, the unread rest of the file, \<^verbatim>\<open>cad\<close>, and \<^verbatim>\<open>cad1\<close>,
  which is unbound (\<open>None\<close>) until the body has run once.
\<close>

function read_loop ::
  "string \<Rightarrow> string \<Rightarrow> string list list \<Rightarrow> string list option
   \<Rightarrow> string list list \<times> string list option" where
  "read_loop fileline rest cad cad1 =
     (if fileline \<noteq> []
      then read_loop (fst (readline rest)) (snd (readline rest))
             (cad @ [split fileline]) (Some (split fileline))
      else (cad, cad1))"
  by pat_completeness auto
termination
proof (relation "measure (\<lambda>(fileline, rest, cad, cad1).
                   length rest + (if fileline = [] then 0 else 1))", goal_cases)
  case 1
  show ?case by simp
next
  case (2 fileline rest cad cad1)
  show ?case
  proof (cases "rest = []")
    case True
    with 2 show ?thesis by simp
  next
    case False
    from readline_rest_less [OF False] 2 show ?thesis by simp
  qed
qed

declare read_loop.simps [simp del]

text \<open>
  The inner loop \<^verbatim>\<open>for poscad in range(len(cad)): auxcad.append(cad[poscad][poscad1])\<close>:
  the indices are never negative, so a read is out of range exactly when the row is too
  short.
\<close>

fun column_at :: "'a list list \<Rightarrow> nat \<Rightarrow> exn + 'a list" where
  "column_at [] poscad1 = Inr []"
| "column_at (row # rows) poscad1 =
     (if poscad1 < length row
      then bind (column_at rows poscad1) (\<lambda>auxcad. Inr (row ! poscad1 # auxcad))
      else Inl IndexError)"

text \<open>The outer loop \<^verbatim>\<open>for poscad1 in range(len(cad1))\<close>, over the list of its indices.\<close>

fun columns_of :: "'a list list \<Rightarrow> nat list \<Rightarrow> exn + 'a list list" where
  "columns_of cad [] = Inr []"
| "columns_of cad (poscad1 # ps) =
     bind (column_at cad poscad1)
       (\<lambda>auxcad. bind (columns_of cad ps) (\<lambda>finalcad. Inr (auxcad # finalcad)))"

text \<open>
  The \<^verbatim>\<open>try\<close> block that transposes \<^verbatim>\<open>cad\<close>: \<^verbatim>\<open>len(cad1)\<close> raises
  \<^verbatim>\<open>UnboundLocalError\<close> when no line was read, and the handler turns \<^verbatim>\<open>IndexError\<close>,
  and nothing else, into a message and \<^verbatim>\<open>sys.exit(2)\<close>.
\<close>

definition transposition :: "'a list list \<Rightarrow> 'a list option \<Rightarrow> exn + 'a list list" where
  "transposition cad cad1 =
     (case cad1 of
        None \<Rightarrow> Inl UnboundLocalError
      | Some c1 \<Rightarrow>
          (case columns_of cad [0..<length c1] of
             Inl IndexError \<Rightarrow> Inl (SystemExit [ValuesMustBeEqual] 2)
           | Inl e \<Rightarrow> Inl e
           | Inr finalcad \<Rightarrow> Inr finalcad))"

text \<open>
  \<^verbatim>\<open>readinputfile(path)\<close>. The file system maps a path to the content of the file, if it
  can be opened.
\<close>

definition readinputfile :: "(string \<rightharpoonup> string) \<Rightarrow> string \<Rightarrow> exn + string list list" where
  "readinputfile fs path =
     (case fs path of
        None \<Rightarrow> Inl (SystemExit [NoSuchFile path, ForHelp, Banner, DocUrl] 2)
      | Some content \<Rightarrow>
          (case read_loop (fst (readline content)) (snd (readline content)) [] None of
             (cad, cad1) \<Rightarrow> transposition cad cad1))"

text \<open>
  The transposition as a function of the row-major table alone: in \<^verbatim>\<open>readinputfile\<close>,
  \<^verbatim>\<open>cad1\<close> is the last row appended to \<^verbatim>\<open>cad\<close> (lemma \<open>read_loop_cad1\<close>).
\<close>

definition last_row :: "'a list list \<Rightarrow> 'a list option" where
  "last_row cad = (if cad = [] then None else Some (last cad))"

definition transpose_table :: "'a list list \<Rightarrow> exn + 'a list list" where
  "transpose_table cad = transposition cad (last_row cad)"

definition transpose_twice :: "'a list list \<Rightarrow> exn + 'a list list" where
  "transpose_twice cad = bind (transpose_table cad) transpose_table"

text \<open>The rows of a file: one per line read, each the list of its tokens.\<close>

function file_lines :: "string \<Rightarrow> string list" where
  "file_lines s = (if s = [] then [] else fst (readline s) # file_lines (snd (readline s)))"
  by pat_completeness auto
termination
  by (relation "measure length") (auto simp: readline_rest_less)

declare file_lines.simps [simp del]

definition file_rows :: "string \<Rightarrow> string list list" where
  "file_rows content = map split (file_lines content)"

subsection \<open>\<^verbatim>\<open>svgelements.Piechart\<close> and \<^verbatim>\<open>svgelements.Path\<close>\<close>

text \<open>
  \<^verbatim>\<open>totalsum\<close>: \<^verbatim>\<open>for value in self.listvalues[int(self.values) - 1]: self.sumvalues += int(value)\<close>,
  from \<^verbatim>\<open>self.sumvalues = 0\<close>.
\<close>

fun totalsum_loop :: "string list \<Rightarrow> int \<Rightarrow> exn + int" where
  "totalsum_loop [] sumvalues = Inr sumvalues"
| "totalsum_loop (v # vs) sumvalues =
     bind (int_of_cell v) (\<lambda>n. totalsum_loop vs (sumvalues + n))"

definition totalsum :: "string list list \<Rightarrow> int \<Rightarrow> exn + int" where
  "totalsum listvalues values =
     bind (py_get listvalues (values - 1)) (\<lambda>column. totalsum_loop column 0)"

text \<open>
  \<^verbatim>\<open>valuestoradians\<close>:
  \<^verbatim>\<open>[(int(value) * 2 * pi) / self.sumvalues for value in self.listvalues[int(self.values) - 1]]\<close>.
\<close>

fun radians_loop :: "string list \<Rightarrow> int \<Rightarrow> exn + real list" where
  "radians_loop [] sumvalues = Inr []"
| "radians_loop (v # vs) sumvalues =
     bind (int_of_cell v) (\<lambda>n.
     bind (float_div (of_int n * 2 * pi) (of_int sumvalues)) (\<lambda>r.
     bind (radians_loop vs sumvalues) (\<lambda>rs. Inr (r # rs))))"

definition valuestoradians :: "string list list \<Rightarrow> int \<Rightarrow> int \<Rightarrow> exn + real list" where
  "valuestoradians listvalues values sumvalues =
     bind (py_get listvalues (values - 1)) (\<lambda>column. radians_loop column sumvalues)"

text \<open>
  The object after \<^verbatim>\<open>Piechart.__init__\<close>, which ends with the two calls above
  (\<open>values_fld\<close> is the attribute \<^verbatim>\<open>values\<close>).
\<close>

record piechart =
  xorigin :: int
  yorigin :: int
  radius :: int
  listvalues :: "string list list"
  values_fld :: int
  labels :: int
  colorfld :: int
  legend :: bool
  title :: string
  sumvalues :: int
  radianvalues :: "real list"

definition Piechart ::
  "int \<Rightarrow> int \<Rightarrow> int \<Rightarrow> string list list \<Rightarrow> int \<Rightarrow> int \<Rightarrow> int \<Rightarrow> bool \<Rightarrow> string
   \<Rightarrow> exn + piechart" where
  "Piechart xo yo r lv vals lbls cfld lgnd ttl =
     bind (totalsum lv vals) (\<lambda>s.
     bind (valuestoradians lv vals s) (\<lambda>rs.
     Inr \<lparr>xorigin = xo, yorigin = yo, radius = r, listvalues = lv, values_fld = vals,
          labels = lbls, colorfld = cfld, legend = lgnd, title = ttl,
          sumvalues = s, radianvalues = rs\<rparr>))"

text \<open>
  \<^verbatim>\<open>Path.printsvg\<close> writes the large-arc-flag of the arc command:
  \<^verbatim>\<open>if (self.radian > pi): string += "1" else: string += "0"\<close>.
\<close>

definition large_arc_flag :: "real \<Rightarrow> string" where
  "large_arc_flag radian = (if radian > pi then ''1'' else ''0'')"

text \<open>
  The distance from the centre at which \<^verbatim>\<open>Piechart.printsvg\<close> places the percentage
  text of a slice: \<^verbatim>\<open>self.radius * 1.4\<close> in the first branch, \<^verbatim>\<open>self.radius * 1.2\<close> in the
  other.
\<close>

definition label_offset :: "real \<Rightarrow> real \<Rightarrow> int \<Rightarrow> real" where
  "label_offset initianradian v r =
     (if initianradian + v / 2 > 3 * pi / 4 \<and> initianradian + v / 2 < 5 * pi / 4
      then of_int r * 1.4 else of_int r * 1.2)"

text \<open>\<^verbatim>\<open>round(x, 1)\<close> of Python 2: to one decimal, a half away from zero.\<close>

definition round1 :: "real \<Rightarrow> real" where
  "round1 x =
     (if 0 \<le> x then of_int \<lfloor>x * 10 + 1 / 2\<rfloor> / 10 else of_int \<lceil>x * 10 - 1 / 2\<rceil> / 10)"

text \<open>
  What one pass of the loop \<^verbatim>\<open>for value in self.radianvalues\<close> emits: the percentage
  \<^verbatim>\<open>Text\<close>, the \<^verbatim>\<open>Gradient\<close>, the \<^verbatim>\<open>Path\<close> of the sector and, with \<^verbatim>\<open>--legend\<close>, the
  \<^verbatim>\<open>Hcolumn\<close> of the legend.
\<close>

record pie_slice =
  slice_pos :: nat
  sectorvalue :: real
  text_offset :: real
  text_x :: real
  text_y :: real
  colorgrad :: string
  path_initianradian :: real
  path_radian :: real
  path_flag :: string
  path_fill :: string
  legend_text :: "string option"

fun slices_loop ::
  "piechart \<Rightarrow> real list \<Rightarrow> real \<Rightarrow> nat \<Rightarrow> exn + pie_slice list" where
  "slices_loop pc [] initianradian pos = Inr []"
| "slices_loop pc (v # vs) initianradian pos =
     bind (py_get (listvalues pc) (values_fld pc - 1)) (\<lambda>valcol.
     bind (py_get valcol (int pos)) (\<lambda>cell.
     bind (float_of_cell cell) (\<lambda>x.
     bind (float_div x (real_of_int (sumvalues pc))) (\<lambda>q.
     bind (py_get (listvalues pc) (colorfld pc - 1)) (\<lambda>colcol.
     bind (py_get colcol (int pos)) (\<lambda>colour.
     bind (if legend pc
           then bind (py_get (listvalues pc) (labels pc - 1)) (\<lambda>labcol.
                bind (py_get labcol (int pos)) (\<lambda>l. Inr (Some l)))
           else Inr None) (\<lambda>lg.
     bind (slices_loop pc vs (initianradian + v) (pos + 1)) (\<lambda>rest.
     Inr (\<lparr>slice_pos = pos,
           sectorvalue = round1 (q * 100),
           text_offset = label_offset initianradian v (radius pc),
           text_x = of_int (xorigin pc + radius pc)
                    + cos (initianradian + v / 2) * label_offset initianradian v (radius pc),
           text_y = of_int (yorigin pc + radius pc)
                    + sin (initianradian + v / 2) * label_offset initianradian v (radius pc),
           colorgrad = colour,
           path_initianradian = initianradian,
           path_radian = v,
           path_flag = large_arc_flag v,
           path_fill = colour,
           legend_text = lg\<rparr> # rest)))))))))"

text \<open>
  \<^verbatim>\<open>Piechart.printsvg\<close>: the guard on \<^verbatim>\<open>len(self.listvalues) != int(self.colorfld)\<close>
  prints and exits before anything is drawn; the handler of the enclosing \<^verbatim>\<open>try\<close>
  turns an \<^verbatim>\<open>IndexError\<close> of the loop into a message and \<^verbatim>\<open>sys.exit(2)\<close>. The loop
  starts from \<^verbatim>\<open>self.initianradian = 0\<close> and \<^verbatim>\<open>self.pos = 0\<close>.
\<close>

definition Piechart_printsvg :: "piechart \<Rightarrow> exn + pie_slice list" where
  "Piechart_printsvg pc =
     (if int (length (listvalues pc)) \<noteq> colorfld pc
      then Inl (SystemExit [IncorrectInputData] 2)
      else (case slices_loop pc (radianvalues pc) 0 0 of
              Inl IndexError \<Rightarrow> Inl (SystemExit [ColumnsMustMatchSelectors] 2)
            | Inl e \<Rightarrow> Inl e
            | Inr slices \<Rightarrow> Inr slices))"


text \<open>
  The branch \<^verbatim>\<open>prefab == "pie"\<close> of \<^verbatim>\<open>pySVG.getprocessargs\<close>:
  \<^verbatim>\<open>piechart = svgelements.Piechart(...); chartsvg = piechart.printsvg()\<close>.
\<close>

definition pie_chartsvg ::
  "int \<Rightarrow> int \<Rightarrow> int \<Rightarrow> string list list \<Rightarrow> int \<Rightarrow> int \<Rightarrow> int \<Rightarrow> bool \<Rightarrow> string
   \<Rightarrow> exn + pie_slice list" where
  "pie_chartsvg xo yo r lv vals lbls cfld lgnd ttl =
     bind (Piechart xo yo r lv vals lbls cfld lgnd ttl) Piechart_printsvg"

subsection \<open>\<^verbatim>\<open>svgelements.Scatterplot\<close>: the regression line\<close>

text \<open>
  \<^verbatim>\<open>getaverage(lval)\<close>: the cells of a column are added as integers, and
  \<^verbatim>\<open>int(sumlval / len(lval))\<close> is the floor of the quotient.
\<close>

fun getaverage_loop :: "string list \<Rightarrow> int \<Rightarrow> exn + int" where
  "getaverage_loop [] sumlval = Inr sumlval"
| "getaverage_loop (c # cs) sumlval =
     bind (int_of_cell c) (\<lambda>n. getaverage_loop cs (sumlval + n))"

definition getaverage :: "string list \<Rightarrow> exn + int" where
  "getaverage lval =
     bind (getaverage_loop lval 0) (\<lambda>sumlval. int_div sumlval (int (length lval)))"

text \<open>
  \<^verbatim>\<open>getvariance(lval)\<close>: every pass of the loop calls \<^verbatim>\<open>self.getaverage(lval)\<close> twice,
  on the whole column.
\<close>

fun getvariance_loop :: "string list \<Rightarrow> string list \<Rightarrow> int \<Rightarrow> exn + int" where
  "getvariance_loop lval [] var = Inr var"
| "getvariance_loop lval (c # cs) var =
     bind (int_of_cell c) (\<lambda>a.
     bind (getaverage lval) (\<lambda>m1.
     bind (int_of_cell c) (\<lambda>b.
     bind (getaverage lval) (\<lambda>m2.
     getvariance_loop lval cs (var + (a - m1) * (b - m2))))))"

definition getvariance :: "string list \<Rightarrow> exn + int" where
  "getvariance lval =
     bind (getvariance_loop lval lval 0) (\<lambda>var. int_div var (int (length lval)))"

text \<open>
  \<^verbatim>\<open>getcovariance(lval)\<close>, on the whole table: the loop runs over the indices of the X
  column (\<open>xs\<close>, already read for \<^verbatim>\<open>range(len(...))\<close>) and reads the Y column at the
  same index.
\<close>

fun getcovariance_loop ::
  "string list list \<Rightarrow> string list \<Rightarrow> int \<Rightarrow> nat list \<Rightarrow> int \<Rightarrow> exn + int" where
  "getcovariance_loop lval xs ycolumn [] covar = Inr covar"
| "getcovariance_loop lval xs ycolumn (num # nums) covar =
     bind (py_get xs (int num)) (\<lambda>cx.
     bind (int_of_cell cx) (\<lambda>x.
     bind (getaverage xs) (\<lambda>mx.
     bind (py_get lval (ycolumn - 1)) (\<lambda>ys.
     bind (py_get ys (int num)) (\<lambda>cy.
     bind (int_of_cell cy) (\<lambda>y.
     bind (getaverage ys) (\<lambda>my.
     getcovariance_loop lval xs ycolumn nums (covar + (x - mx) * (y - my)))))))))"

definition getcovariance :: "string list list \<Rightarrow> int \<Rightarrow> int \<Rightarrow> exn + int" where
  "getcovariance lval xcolumn ycolumn =
     bind (py_get lval (xcolumn - 1)) (\<lambda>xs.
     bind (getcovariance_loop lval xs ycolumn [0..<length xs] 0) (\<lambda>covar.
     int_div covar (int (length xs))))"

text \<open>
  The slope
  \<^verbatim>\<open>bcomponent = float(self.getcovariance(lval)) / float(self.getvariance(lval[int(self.xcolumn) - 1]))\<close>.
\<close>

definition bcomponent :: "string list list \<Rightarrow> int \<Rightarrow> int \<Rightarrow> exn + real" where
  "bcomponent lval xcolumn ycolumn =
     bind (getcovariance lval xcolumn ycolumn) (\<lambda>covar.
     bind (py_get lval (xcolumn - 1)) (\<lambda>xs.
     bind (getvariance xs) (\<lambda>var.
     float_div (real_of_int covar) (real_of_int var))))"

text \<open>The loop of \<^verbatim>\<open>getregressionline\<close> appends the point \<^verbatim>\<open>[float(x), ylist]\<close>.\<close>

fun reglist_loop ::
  "string list list \<Rightarrow> string list \<Rightarrow> int \<Rightarrow> real \<Rightarrow> nat list \<Rightarrow> exn + real list list" where
  "reglist_loop lval xs ycolumn b [] = Inr []"
| "reglist_loop lval xs ycolumn b (cont # conts) =
     bind (py_get xs (int cont)) (\<lambda>cx.
     bind (float_of_cell cx) (\<lambda>x.
     bind (getaverage xs) (\<lambda>mx.
     bind (py_get lval (ycolumn - 1)) (\<lambda>ys.
     bind (getaverage ys) (\<lambda>my.
     bind (reglist_loop lval xs ycolumn b conts) (\<lambda>reglist.
     Inr ([x, b * (x - real_of_int mx) + real_of_int my] # reglist)))))))"

definition getregressionline ::
  "string list list \<Rightarrow> int \<Rightarrow> int \<Rightarrow> exn + real list list" where
  "getregressionline lval xcolumn ycolumn =
     bind (bcomponent lval xcolumn ycolumn) (\<lambda>b.
     bind (py_get lval (xcolumn - 1)) (\<lambda>xs.
     reglist_loop lval xs ycolumn b [0..<length xs]))"

text \<open>
  The block \<^verbatim>\<open>if self.corr:\<close> of \<^verbatim>\<open>Scatterplot.printsvg\<close> up to the call of
  \<^verbatim>\<open>getregressionline\<close>, under the handler of the enclosing \<^verbatim>\<open>try\<close>, which catches
  \<^verbatim>\<open>IndexError\<close> and nothing else (nor does \<^verbatim>\<open>pySVG.getprocessargs\<close>, whose handlers
  catch \<^verbatim>\<open>UnboundLocalError\<close>).
\<close>

definition printsvg_regression ::
  "bool \<Rightarrow> string list list \<Rightarrow> int \<Rightarrow> int \<Rightarrow> exn + real list list option" where
  "printsvg_regression corr lval xcolumn ycolumn =
     (if corr
      then (case getregressionline lval xcolumn ycolumn of
              Inl IndexError \<Rightarrow> Inl (SystemExit [ColumnsMustMatchSelectors] 2)
            | Inl e \<Rightarrow> Inl e
            | Inr reglist \<Rightarrow> Inr (Some reglist))
      else Inr None)"

subsection \<open>\<^verbatim>\<open>svgelements.Bardiagram\<close>: the Y axis\<close>

text \<open>
  The two loops of \<^verbatim>\<open>setmaximumbars\<close> keep the largest integer seen so far
  (\<^verbatim>\<open>if m < int(cell): m = int(cell)\<close>).
\<close>

fun maximum_loop :: "string list \<Rightarrow> int \<Rightarrow> exn + int" where
  "maximum_loop [] m = Inr m"
| "maximum_loop (c # cs) m =
     bind (int_of_cell c) (\<lambda>v. maximum_loop cs (if m < v then v else m))"

text \<open>
  \<^verbatim>\<open>setmaximumbars(lval)\<close>: the maximum of the Y column and, only when \<^verbatim>\<open>ycolumn2\<close> is
  the number of columns, of the Y2 column (whose running maximum starts from the first
  cell of the Y column). Its handler turns \<^verbatim>\<open>ValueError\<close> into a message and
  \<^verbatim>\<open>sys.exit(2)\<close>.
\<close>

definition setmaximumbars :: "string list list \<Rightarrow> int \<Rightarrow> int \<Rightarrow> exn + int" where
  "setmaximumbars lval ycolumn ycolumn2 =
     (case
        bind (py_get lval (ycolumn - 1)) (\<lambda>ys.
        bind (py_get ys 0) (\<lambda>c0.
        bind (int_of_cell c0) (\<lambda>first.
        bind (maximum_loop ys first) (\<lambda>heightmaxbar.
        if int (length lval) = ycolumn2
        then bind (py_get lval (ycolumn2 - 1)) (\<lambda>ys2.
             bind (maximum_loop ys2 first) (\<lambda>auxmaxbar.
             Inr (if heightmaxbar < auxmaxbar then auxmaxbar else heightmaxbar)))
        else Inr heightmaxbar))))
      of Inl ValueError \<Rightarrow> Inl (SystemExit [ValuesMustBeNumeric] 2)
       | Inl e \<Rightarrow> Inl e
       | Inr heightmaxbar \<Rightarrow> Inr heightmaxbar)"

text \<open>
  \<^verbatim>\<open>Bardiagram.__init__\<close> stores \<^verbatim>\<open>self.heightmaxbar\<close>; its handler turns the
  \<^verbatim>\<open>IndexError\<close> of \<^verbatim>\<open>setmaximumbars\<close> into a message and \<^verbatim>\<open>sys.exit(2)\<close>.
\<close>

definition Bardiagram_heightmaxbar :: "string list list \<Rightarrow> int \<Rightarrow> int \<Rightarrow> exn + int" where
  "Bardiagram_heightmaxbar lval ycolumn ycolumn2 =
     (case setmaximumbars lval ycolumn ycolumn2 of
        Inl IndexError \<Rightarrow> Inl (SystemExit [ColumnsMustMatchSelectors] 2)
      | Inl e \<Rightarrow> Inl e
      | Inr heightmaxbar \<Rightarrow> Inr heightmaxbar)"

text \<open>
  One pass of the tick loop of \<^verbatim>\<open>Bardiagram.printsvg\<close> draws
  \<^verbatim>\<open>Linetext(self.xorigin, self.yorigin + self.heightmaxbar - inc, fontsize, str(inc))\<close>
  and, when \<^verbatim>\<open>self.ygrid == "yes"\<close>, a \<^verbatim>\<open>Line\<close> from there to \<^verbatim>\<open>endbars\<close>.
\<close>

record tick =
  tick_value :: int
  tick_x :: int
  tick_y :: int
  grid_endx :: "int option"

definition draw_tick :: "int \<Rightarrow> int \<Rightarrow> int \<Rightarrow> string \<Rightarrow> int \<Rightarrow> int \<Rightarrow> tick" where
  "draw_tick xorg yorg heightmaxbar ygrid endbars inc =
     \<lparr>tick_value = inc, tick_x = xorg, tick_y = yorg + heightmaxbar - inc,
      grid_endx = (if ygrid = ''yes'' then Some endbars else None)\<rparr>"

text \<open>
  The loop
  \<^verbatim>\<open>counter = 0; inc = int(self.yrange)\<close>,
  \<^verbatim>\<open>while inc <= (self.heightmaxbar): ...; counter += 1; inc = int(self.yrange) + int(self.yinc) * counter\<close>.
  Nothing in the source bounds it, so it is a partial function: \<open>None\<close> is a loop that
  never ends.
\<close>

partial_function (option) axis_loop ::
  "int \<Rightarrow> int \<Rightarrow> int \<Rightarrow> string \<Rightarrow> int \<Rightarrow> int \<Rightarrow> int \<Rightarrow> nat \<Rightarrow> int \<Rightarrow> tick list
   \<Rightarrow> tick list option" where
  "axis_loop xorg yorg heightmaxbar ygrid endbars yrange yinc counter inc drawn =
     (if inc \<le> heightmaxbar
      then axis_loop xorg yorg heightmaxbar ygrid endbars yrange yinc
             (counter + 1) (yrange + yinc * int (counter + 1))
             (drawn @ [draw_tick xorg yorg heightmaxbar ygrid endbars inc])
      else Some drawn)"

definition axis_ticks ::
  "int \<Rightarrow> int \<Rightarrow> int \<Rightarrow> string \<Rightarrow> int \<Rightarrow> int \<Rightarrow> int \<Rightarrow> tick list option" where
  "axis_ticks xorg yorg heightmaxbar ygrid endbars yrange yinc =
     axis_loop xorg yorg heightmaxbar ygrid endbars yrange yinc 0 yrange []"

declare axis_loop.simps [code]

text \<open>
  \<^verbatim>\<open>Bardiagram.printsvg\<close> up to the end of the tick loop: \<^verbatim>\<open>endbars\<close> is computed first
  (with the floor division \<^verbatim>\<open>int(numbars) / 2\<close> when there are two groups of bars), and
  the handler of the enclosing \<^verbatim>\<open>try\<close> turns \<^verbatim>\<open>IndexError\<close> into a message and
  \<^verbatim>\<open>sys.exit(2)\<close>.
\<close>

definition endbars_of ::
  "string list list \<Rightarrow> int \<Rightarrow> int \<Rightarrow> int \<Rightarrow> int \<Rightarrow> int \<Rightarrow> exn + int" where
  "endbars_of lval ycolumn ycolumn2 xorg delim barwidth =
     (if int (length lval) = ycolumn2
      then bind (py_get lval (ycolumn - 1)) (\<lambda>ys.
           bind (py_get lval (ycolumn2 - 1)) (\<lambda>ys2.
           Inr (xorg + delim * ((int (length ys) + int (length ys2)) div 2)
                 + barwidth * (int (length ys) + int (length ys2)))))
      else bind (py_get lval (ycolumn - 1)) (\<lambda>ys.
           Inr (xorg + delim * int (length ys) + barwidth * int (length ys))))"

definition Bardiagram_axis ::
  "string list list \<Rightarrow> int \<Rightarrow> int \<Rightarrow> int \<Rightarrow> int \<Rightarrow> int \<Rightarrow> int \<Rightarrow> int \<Rightarrow> int \<Rightarrow> string
   \<Rightarrow> (exn + tick list) option" where
  "Bardiagram_axis lval ycolumn ycolumn2 xorg yorg delim barwidth yrange yinc ygrid =
     (case Bardiagram_heightmaxbar lval ycolumn ycolumn2 of
        Inl e \<Rightarrow> Some (Inl e)
      | Inr heightmaxbar \<Rightarrow>
          (case endbars_of lval ycolumn ycolumn2 xorg delim barwidth of
             Inl IndexError \<Rightarrow> Some (Inl (SystemExit [ColumnsMustMatchSelectors] 2))
           | Inl e \<Rightarrow> Some (Inl e)
           | Inr endbars \<Rightarrow>
               map_option Inr (axis_ticks xorg yorg heightmaxbar ygrid endbars yrange yinc)))"

text \<open>The column of the bar-axis scenario, with a column of labels before it.\<close>

definition bars_table :: "string list list" where
  "bars_table =
     [[''a'', ''b'', ''c'', ''d'', ''e'', ''f'', ''g''],
      [''366'', ''42'', ''15'', ''67'', ''276'', ''27'', ''66'']]"

subsection \<open>\<^verbatim>\<open>svgelements.Lineplot.ordenatewithquicksort\<close>\<close>

text \<open>
  The list to sort is the list of points \<^verbatim>\<open>[xcoordenate, ycoordenate]\<close> that
  \<^verbatim>\<open>transformtocoordenates\<close> builds, each a new list of two integers, so that no two
  rows are the same object. The routine reads and writes a point through
  \<^verbatim>\<open>lval[i][int(self.xcolumn) - 1]\<close> and \<^verbatim>\<open>lval[i][int(self.ycolumn) - 1]\<close>.
\<close>

definition get2 :: "int list list \<Rightarrow> int \<Rightarrow> int \<Rightarrow> exn + int" where
  "get2 lval i k = bind (py_get lval i) (\<lambda>row. py_get row k)"

definition set2 :: "int list list \<Rightarrow> int \<Rightarrow> int \<Rightarrow> int \<Rightarrow> exn + int list list" where
  "set2 lval i k v =
     bind (py_get lval i) (\<lambda>row.
     bind (py_set row k v) (\<lambda>row'.
     py_set lval i row'))"

text \<open>\<^verbatim>\<open>while int(lval[ivar][int(self.xcolumn) - 1]) < pivot: ivar += 1\<close>\<close>

function scan_up :: "int list list \<Rightarrow> int \<Rightarrow> int \<Rightarrow> int \<Rightarrow> exn + int" where
  "scan_up lval k pivot ivar =
     (case get2 lval ivar k of
        Inl e \<Rightarrow> Inl e
      | Inr v \<Rightarrow> if v < pivot then scan_up lval k pivot (ivar + 1) else Inr ivar)"
  by pat_completeness auto
termination
proof (relation "measure (\<lambda>(lval, k, pivot, ivar). nat (int (length lval) - ivar))", goal_cases)
  case 1
  show ?case by simp
next
  case (2 lval k pivot ivar v)
  then have "ivar < int (length lval)"
    by (auto simp: get2_def bind_def py_get_def py_index_def
             split: sum.splits option.splits if_splits)
  then show ?case by simp
qed

text \<open>\<^verbatim>\<open>while int(lval[jvar][int(self.xcolumn) - 1]) > pivot: jvar -= 1\<close>\<close>

function scan_down :: "int list list \<Rightarrow> int \<Rightarrow> int \<Rightarrow> int \<Rightarrow> exn + int" where
  "scan_down lval k pivot jvar =
     (case get2 lval jvar k of
        Inl e \<Rightarrow> Inl e
      | Inr v \<Rightarrow> if v > pivot then scan_down lval k pivot (jvar - 1) else Inr jvar)"
  by pat_completeness auto
termination
proof (relation "measure (\<lambda>(lval, k, pivot, jvar). nat (int (length lval) + jvar + 1))",
       goal_cases)
  case 1
  show ?case by simp
next
  case (2 lval k pivot jvar v)
  then have "- int (length lval) \<le> jvar"
    by (auto simp: get2_def bind_def py_get_def py_index_def
             split: sum.splits option.splits if_splits)
  then show ?case by simp
qed

declare scan_up.simps [simp del] scan_down.simps [simp del]

text \<open>
  The body of \<^verbatim>\<open>if ivar <= jvar:\<close> up to the two counters: the four assignments, in the
  order of the source, after \<^verbatim>\<open>aux1\<close> and \<^verbatim>\<open>aux2\<close> have been read.
\<close>

definition exchange ::
  "int list list \<Rightarrow> int \<Rightarrow> int \<Rightarrow> int \<Rightarrow> int \<Rightarrow> exn + int list list" where
  "exchange lval kx ky ivar jvar =
     bind (get2 lval ivar kx) (\<lambda>aux1.
     bind (get2 lval ivar ky) (\<lambda>aux2.
     bind (get2 lval jvar kx) (\<lambda>xj.
     bind (set2 lval ivar kx xj) (\<lambda>lval1.
     bind (get2 lval1 jvar ky) (\<lambda>yj.
     bind (set2 lval1 ivar ky yj) (\<lambda>lval2.
     bind (set2 lval2 jvar kx aux1) (\<lambda>lval3.
     set2 lval3 jvar ky aux2)))))))"

lemma scan_up_ge: "scan_up lval k pivot ivar = Inr i \<Longrightarrow> ivar \<le> i"
proof (induction lval k pivot ivar rule: scan_up.induct)
  case (1 lval k pivot ivar)
  from "1.prems" show ?case
    by (subst (asm) scan_up.simps) (auto split: sum.splits if_splits dest: "1.IH")
qed

lemma scan_down_le: "scan_down lval k pivot jvar = Inr j \<Longrightarrow> j \<le> jvar"
proof (induction lval k pivot jvar rule: scan_down.induct)
  case (1 lval k pivot jvar)
  from "1.prems" show ?case
    by (subst (asm) scan_down.simps) (auto split: sum.splits if_splits dest: "1.IH")
qed

text \<open>The loop \<^verbatim>\<open>while ivar < jvar:\<close>; it returns the list and the two counters.\<close>

function partition_loop ::
  "int list list \<Rightarrow> int \<Rightarrow> int \<Rightarrow> int \<Rightarrow> int \<Rightarrow> int \<Rightarrow> exn + int list list \<times> int \<times> int" where
  "partition_loop lval kx ky pivot ivar jvar =
     (if ivar < jvar
      then (case scan_up lval kx pivot ivar of
              Inl e \<Rightarrow> Inl e
            | Inr i \<Rightarrow>
                (case scan_down lval kx pivot jvar of
                   Inl e \<Rightarrow> Inl e
                 | Inr j \<Rightarrow>
                     if i \<le> j
                     then (case exchange lval kx ky i j of
                             Inl e \<Rightarrow> Inl e
                           | Inr lval' \<Rightarrow> partition_loop lval' kx ky pivot (i + 1) (j - 1))
                     else partition_loop lval kx ky pivot i j))
      else Inr (lval, ivar, jvar))"
  by pat_completeness auto
termination
proof (relation "measure (\<lambda>(lval, kx, ky, pivot, ivar, jvar). nat (jvar - ivar))", goal_cases)
  case 1
  show ?case by simp
next
  case (2 lval kx ky pivot ivar jvar i j lval')
  from scan_up_ge [OF 2(2)] scan_down_le [OF 2(3)] 2(1) show ?case by simp
next
  case (3 lval kx ky pivot ivar jvar i j)
  then show ?case by simp
qed

declare partition_loop.simps [simp del]

text \<open>
  \<^verbatim>\<open>ordenatewithquicksort(lval, first, last)\<close>, with the attributes \<^verbatim>\<open>self.xcolumn\<close> and
  \<^verbatim>\<open>self.ycolumn\<close>. The pivot is \<^verbatim>\<open>(int(lval[first][..]) + int(lval[last][..])) / 2\<close>, a
  floor division. Nothing in the source bounds the recursion, so the function is
  partial: \<open>None\<close> is a recursion that never ends (\<open>last'\<close> is the parameter
  \<^verbatim>\<open>last\<close>).
\<close>

partial_function (option) ordenatewithquicksort ::
  "int \<Rightarrow> int \<Rightarrow> int list list \<Rightarrow> int \<Rightarrow> int \<Rightarrow> (exn + int list list) option" where
  "ordenatewithquicksort xcolumn ycolumn lval first last' =
     (case bind (get2 lval first (xcolumn - 1)) (\<lambda>a.
           bind (get2 lval last' (xcolumn - 1)) (\<lambda>b.
           partition_loop lval (xcolumn - 1) (ycolumn - 1) ((a + b) div 2) first last'))
      of Inl e \<Rightarrow> Some (Inl e)
       | Inr (lval1, ivar, jvar) \<Rightarrow>
           Option.bind
             (if first < jvar then ordenatewithquicksort xcolumn ycolumn lval1 first jvar
              else Some (Inr lval1))
             (\<lambda>r. case r of
                     Inl e \<Rightarrow> Some (Inl e)
                   | Inr lval2 \<Rightarrow>
                       if last' > ivar
                       then ordenatewithquicksort xcolumn ycolumn lval2 ivar last'
                       else Some (Inr lval2)))"

declare ordenatewithquicksort.simps [code]

text \<open>
  \<^verbatim>\<open>transformtocoordenates(lval, ymaxpoint)\<close> builds the points from the X and Y
  columns of the table: \<^verbatim>\<open>[int(x), int(ymaxpoint) - int(y)]\<close>.
\<close>

fun points_loop ::
  "string list list \<Rightarrow> string list \<Rightarrow> int \<Rightarrow> int \<Rightarrow> nat list \<Rightarrow> exn + int list list" where
  "points_loop lval xs ycolumn ymaxpoint [] = Inr []"
| "points_loop lval xs ycolumn ymaxpoint (num # nums) =
     bind (py_get xs (int num)) (\<lambda>cx.
     bind (int_of_cell cx) (\<lambda>xcoordenate.
     bind (py_get lval (ycolumn - 1)) (\<lambda>ys.
     bind (py_get ys (int num)) (\<lambda>cy.
     bind (int_of_cell cy) (\<lambda>y.
     bind (points_loop lval xs ycolumn ymaxpoint nums) (\<lambda>newlpoints.
     Inr ([xcoordenate, ymaxpoint - y] # newlpoints)))))))"

definition transformtocoordenates ::
  "string list list \<Rightarrow> int \<Rightarrow> int \<Rightarrow> int \<Rightarrow> exn + int list list" where
  "transformtocoordenates lval xcolumn ycolumn ymaxpoint =
     bind (py_get lval (xcolumn - 1)) (\<lambda>xs.
     points_loop lval xs ycolumn ymaxpoint [0..<length xs])"

text \<open>
  The two statements of \<^verbatim>\<open>Lineplot.printsvg\<close> that build and sort the points,
  \<^verbatim>\<open>lpoints = self.transformtocoordenates(self.lval, ymaxaxis)\<close> and
  \<^verbatim>\<open>self.ordenatewithquicksort(lpoints, int(self.xcolumn) - 1, len(lpoints) - 1)\<close>, under the
  handler of the enclosing \<^verbatim>\<open>try\<close>, which turns \<^verbatim>\<open>IndexError\<close> into a message and
  \<^verbatim>\<open>sys.exit(2)\<close>. \<^verbatim>\<open>ymaxaxis\<close> is what \<^verbatim>\<open>getmaxaxis\<close> returned.
\<close>

definition printsvg_lpointsordenate ::
  "string list list \<Rightarrow> int \<Rightarrow> int \<Rightarrow> int \<Rightarrow> (exn + int list list) option" where
  "printsvg_lpointsordenate lval xcolumn ycolumn ymaxaxis =
     (case transformtocoordenates lval xcolumn ycolumn ymaxaxis of
        Inl IndexError \<Rightarrow> Some (Inl (SystemExit [ColumnsMustMatchSelectors] 2))
      | Inl e \<Rightarrow> Some (Inl e)
      | Inr lpoints \<Rightarrow>
          (case ordenatewithquicksort xcolumn ycolumn lpoints (xcolumn - 1)
                  (int (length lpoints) - 1) of
             None \<Rightarrow> None
           | Some (Inl IndexError) \<Rightarrow> Some (Inl (SystemExit [ColumnsMustMatchSelectors] 2))
           | Some (Inl e) \<Rightarrow> Some (Inl e)
           | Some (Inr lpointsordenate) \<Rightarrow> Some (Inr lpointsordenate)))"

subsection \<open>Notions for the correctness of the sort\<close>

text \<open>Every point is a list of two integers.\<close>

definition points2 :: "int list list \<Rightarrow> bool" where
  "points2 l = list_all (\<lambda>p. length p = 2) l"

text \<open>The key of the point at index \<open>k\<close>: its first component.\<close>

definition keyat :: "int list list \<Rightarrow> int \<Rightarrow> int" where
  "keyat l k = hd (l ! nat k)"

text \<open>
  \<open>l'\<close> is a rearrangement of \<open>l\<close> that leaves the positions before \<open>a\<close> and after
  \<open>b\<close> as they are.
\<close>

definition permuted_within :: "nat \<Rightarrow> nat \<Rightarrow> 'a list \<Rightarrow> 'a list \<Rightarrow> bool" where
  "permuted_within a b l l' =
     (length l' = length l \<and> mset l' = mset l \<and> take a l' = take a l
      \<and> drop (Suc b) l' = drop (Suc b) l)"

text \<open>The segment of a list from index \<open>a\<close> to index \<open>b\<close>, both included.\<close>

definition seg :: "'a list \<Rightarrow> nat \<Rightarrow> nat \<Rightarrow> 'a list" where
  "seg l a b = take (Suc b - a) (drop a l)"

text \<open>The keys at the indices from \<open>a\<close> to \<open>b\<close> are in ascending order.\<close>

definition sorted_between :: "int list list \<Rightarrow> int \<Rightarrow> int \<Rightarrow> bool" where
  "sorted_between l a b = (\<forall>k k'. a \<le> k \<and> k \<le> k' \<and> k' \<le> b \<longrightarrow> keyat l k \<le> keyat l k')"


subsection \<open>Example charts\<close>

text \<open>
  A pie of the values 1 and 3, as \<^verbatim>\<open>Piechart.__init__\<close> leaves it, and what
  \<^verbatim>\<open>printsvg\<close> emits for it.
\<close>

definition pie13 :: piechart where
  "pie13 = \<lparr>xorigin = 100, yorigin = 100, radius = 100,
        listvalues = [[''a'', ''b''], [''1'', ''3''], [''red'', ''blue'']],
        values_fld = 2, labels = 1, colorfld = 3, legend = False, title = '''',
        sumvalues = 4, radianvalues = [pi / 2, 3 * pi / 2]\<rparr>"


text \<open>A pie of the values 1, 2 and 1, with its legend.\<close>

definition pie121 :: piechart where
  "pie121 = \<lparr>xorigin = 100, yorigin = 100, radius = 100,
        listvalues = [[''a'', ''b'', ''c''], [''1'', ''2'', ''1''], [''red'', ''blue'', ''green'']],
        values_fld = 2, labels = 1, colorfld = 3, legend = True, title = '''',
        sumvalues = 4, radianvalues = [pi / 2, pi, pi / 2]\<rparr>"


section \<open>Properties\<close>

subsection \<open>Sequencing\<close>


lemma bind_Inr [simp]: "bind (Inr x) f = f x"
  by (simp add: bind_def)

lemma bind_Inl [simp]: "bind (Inl e) f = Inl e"
  by (simp add: bind_def)

lemmas cell_eval = py_index_def py_get_def int_of_cell_def float_of_cell_def py_int_def is_digit_def float_div_def

subsection \<open>Reading and transposing the input file\<close>

lemma file_lines_Nil [simp]: "file_lines [] = []"
  by (simp add: file_lines.simps)

lemma file_lines_eq_Nil [simp]: "file_lines s = [] \<longleftrightarrow> s = []"
  by (subst file_lines.simps) simp

lemma file_rows_eq_Nil [simp]: "file_rows s = [] \<longleftrightarrow> s = []"
  by (simp add: file_rows_def)

text \<open>The reading loop appends one row per line, and \<^verbatim>\<open>cad1\<close> ends as the last row.\<close>

lemma read_loop_rows:
  "read_loop (fst (readline s)) (snd (readline s)) cad cad1 =
     (cad @ file_rows s, if s = [] then cad1 else Some (last (file_rows s)))"
proof (induction s arbitrary: cad cad1 rule: file_lines.induct)
  case (1 s)
  show ?case
  proof (cases "s = []")
    case True
    then show ?thesis by (simp add: read_loop.simps file_rows_def)
  next
    case False
    then have ne: "fst (readline s) \<noteq> []" by (rule readline_nonempty)
    have fl: "file_lines s = fst (readline s) # file_lines (snd (readline s))"
      using False by (subst file_lines.simps) simp
    show ?thesis
      apply (subst read_loop.simps)
      using ne False 1 [OF False] fl
      by (auto simp: file_rows_def)
  qed
qed

lemma column_at_eq:
  "column_at rows i =
     (if list_all (\<lambda>r. i < length r) rows then Inr (map (\<lambda>r. r ! i) rows) else Inl IndexError)"
  by (induction rows) (auto simp: bind_def)

lemma columns_of_eq:
  "columns_of cad ps =
     (if list_all (\<lambda>i. list_all (\<lambda>r. i < length r) cad) ps
      then Inr (map (\<lambda>i. map (\<lambda>r. r ! i) cad) ps) else Inl IndexError)"
  by (induction ps) (auto simp: bind_def column_at_eq)

lemma readinputfile_rows:
  "fs path = Some content \<Longrightarrow> readinputfile fs path = transpose_table (file_rows content)"
  by (simp add: readinputfile_def read_loop_rows transpose_table_def last_row_def)

text \<open>
  The transposition succeeds exactly when no row is shorter than the last one; tokens
  beyond the length of the last row are dropped.
\<close>

lemma transpose_table_eq:
  "transpose_table cad =
     (if cad = [] then Inl UnboundLocalError
      else if list_all (\<lambda>r. length (last cad) \<le> length r) cad
           then Inr (map (\<lambda>i. map (\<lambda>r. r ! i) cad) [0..<length (last cad)])
           else Inl (SystemExit [ValuesMustBeEqual] 2))"
  by (auto simp: transpose_table_def last_row_def transposition_def columns_of_eq list_all_iff)

lemma readinputfile_outcome:
  assumes "fs path = Some content"
  shows "readinputfile fs path =
     (if content = [] then Inl UnboundLocalError
      else if list_all (\<lambda>r. length (last (file_rows content)) \<le> length r) (file_rows content)
           then Inr (map (\<lambda>i. map (\<lambda>r. r ! i) (file_rows content))
                      [0..<length (last (file_rows content))])
           else Inl (SystemExit [ValuesMustBeEqual] 2))"
  using assms by (simp add: readinputfile_rows transpose_table_eq)

text \<open>A file whose first row has three tokens and whose second has four is rejected.\<close>

lemma readinputfile_long_last_row:
  "readinputfile [''data.txt'' \<mapsto> ''1 2 3'' @ [CHR 0x0A] @ ''4 5 6 7'' @ [CHR 0x0A]] ''data.txt''
     = Inl (SystemExit [ValuesMustBeEqual] 2)"
  by (simp add: readinputfile_def read_loop.simps split_def py_isspace_def transposition_def)

subsection \<open>The pie chart\<close>










lemmas pie_eval = cell_eval totalsum_def valuestoradians_def Piechart_def
  Piechart_printsvg_def pie_chartsvg_def large_arc_flag_def label_offset_def round1_def

lemma pie13_init:
  "Piechart 100 100 100 [[''a'', ''b''], [''1'', ''3''], [''red'', ''blue'']] 2 1 3 False ''''
     = Inr pie13"
  by (simp add: pie_eval pie13_def)


lemma pie121_init:
  "Piechart 100 100 100
     [[''a'', ''b'', ''c''], [''1'', ''2'', ''1''], [''red'', ''blue'', ''green'']] 2 1 3 True ''''
     = Inr pie121"
  by (simp add: pie_eval pie121_def)


subsection \<open>The regression line\<close>

lemmas reg_eval = cell_eval int_div_def getaverage_def getvariance_def getcovariance_def
  bcomponent_def getregressionline_def printsvg_regression_def









text \<open>
  On the columns 1, 2, 3, 4 and 2, 4, 6, 8 the truncated means are 2 and 5 (for 2.5 and
  5), the truncated variance is 1 (for 1.25) and the truncated covariance 2 (for 2.5).
\<close>

lemma regression_example_means:
  "getaverage [''1'', ''2'', ''3'', ''4''] = Inr 2
   \<and> getaverage [''2'', ''4'', ''6'', ''8''] = Inr 5
   \<and> getvariance [''1'', ''2'', ''3'', ''4''] = Inr 1
   \<and> getcovariance [[''1'', ''2'', ''3'', ''4''], [''2'', ''4'', ''6'', ''8'']] 1 2 = Inr 2"
  by (simp add: reg_eval upt_rec)

subsection \<open>The tick loop\<close>

lemmas bar_eval = cell_eval Bardiagram_heightmaxbar_def setmaximumbars_def endbars_of_def
  Bardiagram_axis_def axis_ticks_def draw_tick_def


lemma bars_table_heightmaxbar: "Bardiagram_heightmaxbar bars_table 2 3 = Inr 366"
  by (simp add: bar_eval bars_table_def)

subsection \<open>Sorting the points of a line plot\<close>

lemmas sort_eval = cell_eval get2_def set2_def py_set_def exchange_def scan_up.simps
  scan_down.simps partition_loop.simps ordenatewithquicksort.simps
  transformtocoordenates_def printsvg_lpointsordenate_def

text \<open>With the X data in column 1 and the Y data in column 2 the points come out sorted.\<close>

lemma quicksort_default_selectors:
  "printsvg_lpointsordenate [[''3'', ''1'', ''2''], [''5'', ''9'', ''7'']] 1 2 9
     = Some (Inr [[1, 0], [2, 2], [3, 4]])"
  by (simp add: sort_eval upt_rec)

text \<open>
  With the selectors exchanged the routine orders the points by their second
  component, and leaves the x-sequence 2, 1.
\<close>

lemma quicksort_swapped_selectors:
  "ordenatewithquicksort 2 1 [[2, 0], [1, 3]] 0 1 = Some (Inr [[2, 0], [1, 3]])"
  by (simp add: sort_eval)

subsection \<open>The partition-exchange sort with the selectors 1 and 2\<close>

text \<open>
  With \<^verbatim>\<open>self.xcolumn = 1\<close> and \<^verbatim>\<open>self.ycolumn = 2\<close> the routine addresses the two
  components of a point, and the exchange is the exchange of two points.
\<close>

lemma py_get_inrange:
  "0 \<le> i \<Longrightarrow> i < int (length xs) \<Longrightarrow> py_get xs i = Inr (xs ! nat i)"
  by (simp add: py_get_def py_index_def)

lemma py_set_inrange:
  "0 \<le> i \<Longrightarrow> i < int (length xs) \<Longrightarrow> py_set xs i v = Inr (xs[nat i := v])"
  by (simp add: py_set_def py_index_def)

lemma points2_nth: "points2 l \<Longrightarrow> k < length l \<Longrightarrow> length (l ! k) = 2"
  by (simp add: points2_def list_all_length)

lemma points2_row:
  assumes "points2 l" "k < length l"
  obtains a b where "l ! k = [a, b]"
proof -
  from assms have "length (l ! k) = 2" by (rule points2_nth)
  then obtain a b where "l ! k = [a, b]"
    by (cases "l ! k") (auto simp: length_Suc_conv)
  then show ?thesis by (rule that)
qed

lemma get2_key:
  assumes "points2 l" "0 \<le> i" "i < int (length l)"
  shows "get2 l i 0 = Inr (keyat l i)"
proof -
  from assms obtain a b where "l ! nat i = [a, b]"
    by (auto elim: points2_row [of l "nat i"])
  with assms show ?thesis
    by (simp add: get2_def py_get_inrange keyat_def py_get_def py_index_def)
qed

lemma exchange_swap:
  assumes "points2 l" "0 \<le> i" "i < int (length l)" "0 \<le> j" "j < int (length l)"
  shows "exchange l 0 1 i j = Inr (l[nat i := l ! nat j, nat j := l ! nat i])"
proof -
  from assms obtain a b where ri: "l ! nat i = [a, b]"
    by (auto elim: points2_row [of l "nat i"])
  from assms obtain c d where rj: "l ! nat j = [c, d]"
    by (auto elim: points2_row [of l "nat j"])
  show ?thesis
  proof (cases "i = j")
    case True
    with ri rj assms show ?thesis
      by (simp add: exchange_def get2_def set2_def py_get_inrange py_set_inrange
                    py_get_def py_set_def py_index_def list_update_same_conv)
  next
    case False
    then have ne: "nat i \<noteq> nat j" using assms by simp
    with ri rj assms show ?thesis
      by (simp add: exchange_def get2_def set2_def py_get_inrange py_set_inrange
                    py_get_def py_set_def py_index_def list_update_swap [of "nat i" "nat j"])
  qed
qed

lemma scan_up_stops:
  assumes "points2 l" and "0 \<le> ivar" and "ivar \<le> m" and "m < int (length l)"
    and "pivot \<le> keyat l m"
  shows "\<exists>i. scan_up l 0 pivot ivar = Inr i \<and> ivar \<le> i \<and> i \<le> m \<and> pivot \<le> keyat l i
           \<and> (\<forall>k. ivar \<le> k \<and> k < i \<longrightarrow> keyat l k < pivot)"
  using assms(2,3)
proof (induction "nat (m - ivar)" arbitrary: ivar rule: less_induct)
  case less
  have g: "get2 l ivar 0 = Inr (keyat l ivar)"
    using assms(1,4) less.prems by (intro get2_key) auto
  show ?case
  proof (cases "keyat l ivar < pivot")
    case False
    then have "scan_up l 0 pivot ivar = Inr ivar"
      using g by (subst scan_up.simps) simp
    with False less.prems show ?thesis by auto
  next
    case True
    with assms(5) have "ivar \<noteq> m" by auto
    with less.prems have lt: "ivar + 1 \<le> m" by simp
    then have "nat (m - (ivar + 1)) < nat (m - ivar)" by simp
    from less.hyps [OF this _ lt] less.prems obtain i where
      i: "scan_up l 0 pivot (ivar + 1) = Inr i" "ivar + 1 \<le> i" "i \<le> m" "pivot \<le> keyat l i"
         "\<forall>k. ivar + 1 \<le> k \<and> k < i \<longrightarrow> keyat l k < pivot"
      by auto
    have "scan_up l 0 pivot ivar = Inr i"
      using g True i(1) by (subst scan_up.simps) simp
    moreover have "\<forall>k. ivar \<le> k \<and> k < i \<longrightarrow> keyat l k < pivot"
    proof (intro allI impI)
      fix k assume k: "ivar \<le> k \<and> k < i"
      show "keyat l k < pivot"
      proof (cases "k = ivar")
        case True
        with \<open>keyat l ivar < pivot\<close> show ?thesis by simp
      next
        case False
        with k have "ivar + 1 \<le> k \<and> k < i" by simp
        with i(5) show ?thesis by blast
      qed
    qed
    ultimately show ?thesis using i(2,3,4) by auto
  qed
qed

lemma scan_down_stops:
  assumes "points2 l" and "0 \<le> m" and "m \<le> jvar" and "jvar < int (length l)"
    and "keyat l m \<le> pivot"
  shows "\<exists>j. scan_down l 0 pivot jvar = Inr j \<and> m \<le> j \<and> j \<le> jvar \<and> keyat l j \<le> pivot
           \<and> (\<forall>k. j < k \<and> k \<le> jvar \<longrightarrow> pivot < keyat l k)"
  using assms(3,4)
proof (induction "nat (jvar - m)" arbitrary: jvar rule: less_induct)
  case less
  have g: "get2 l jvar 0 = Inr (keyat l jvar)"
    using assms(1,2) less.prems by (intro get2_key) auto
  show ?case
  proof (cases "pivot < keyat l jvar")
    case False
    then have "scan_down l 0 pivot jvar = Inr jvar"
      using g by (subst scan_down.simps) simp
    with False less.prems show ?thesis by auto
  next
    case True
    with assms(5) have "jvar \<noteq> m" by auto
    with less.prems have lt: "m \<le> jvar - 1" by simp
    then have "nat (jvar - 1 - m) < nat (jvar - m)" by simp
    from less.hyps [OF this lt] less.prems obtain j where
      j: "scan_down l 0 pivot (jvar - 1) = Inr j" "m \<le> j" "j \<le> jvar - 1" "keyat l j \<le> pivot"
         "\<forall>k. j < k \<and> k \<le> jvar - 1 \<longrightarrow> pivot < keyat l k"
      by auto
    have "scan_down l 0 pivot jvar = Inr j"
      using g True j(1) by (subst scan_down.simps) simp
    moreover have "\<forall>k. j < k \<and> k \<le> jvar \<longrightarrow> pivot < keyat l k"
    proof (intro allI impI)
      fix k assume k: "j < k \<and> k \<le> jvar"
      show "pivot < keyat l k"
      proof (cases "k = jvar")
        case True
        with \<open>pivot < keyat l jvar\<close> show ?thesis by simp
      next
        case False
        with k have "j < k \<and> k \<le> jvar - 1" by simp
        with j(5) show ?thesis by blast
      qed
    qed
    ultimately show ?thesis using j(2,3,4) by auto
  qed
qed

lemma permuted_within_refl: "permuted_within a b l l"
  by (simp add: permuted_within_def)

lemma permuted_within_trans:
  "permuted_within a b l l' \<Longrightarrow> permuted_within a b l' l'' \<Longrightarrow> permuted_within a b l l''"
  by (simp add: permuted_within_def)

lemma permuted_within_mono:
  assumes "permuted_within a' b' l l'" and "a \<le> a'" and "b' \<le> b"
  shows "permuted_within a b l l'"
proof -
  from assms(1) have t: "take a' l' = take a' l" and d: "drop (Suc b') l' = drop (Suc b') l"
    by (simp_all add: permuted_within_def)
  have "take a (take a' l') = take a (take a' l)" using t by simp
  then have t': "take a l' = take a l" using assms(2) by (simp add: min_def)
  have "drop (Suc b - Suc b') (drop (Suc b') l') = drop (Suc b - Suc b') (drop (Suc b') l)"
    using d by simp
  then have d': "drop (Suc b) l' = drop (Suc b) l" using assms(3) by simp
  from assms(1) t' d' show ?thesis by (simp add: permuted_within_def)
qed

lemma permuted_within_swap:
  assumes "a \<le> i" "i \<le> b" "a \<le> j" "j \<le> b" "b < length l"
  shows "permuted_within a b l (l[i := l ! j, j := l ! i])"
  using assms by (simp add: permuted_within_def mset_swap)

lemma permuted_within_outside:
  assumes "permuted_within a b l l'" and "k < a \<or> b < k" and "k < length l"
  shows "l' ! k = l ! k"
proof -
  from assms(1) have len: "length l' = length l"
    and t: "take a l' = take a l" and d: "drop (Suc b) l' = drop (Suc b) l"
    by (simp_all add: permuted_within_def)
  from assms(2) show ?thesis
  proof
    assume "k < a"
    then have "l' ! k = take a l' ! k" "l ! k = take a l ! k" by simp_all
    with t show ?thesis by simp
  next
    assume "b < k"
    then have k: "k = Suc b + (k - Suc b)" by simp
    have "drop (Suc b) l' ! (k - Suc b) = drop (Suc b) l ! (k - Suc b)" using d by simp
    then show ?thesis using assms(3) len \<open>b < k\<close> by (simp add: less_eq_Suc_le)
  qed
qed

lemma seg_decomp:
  assumes "a \<le> Suc b" "b < length l"
  shows "l = take a l @ seg l a b @ drop (Suc b) l"
proof -
  have "drop a l = take (Suc b - a) (drop a l) @ drop (Suc b - a) (drop a l)"
    by (simp only: append_take_drop_id)
  also have "drop (Suc b - a) (drop a l) = drop (Suc b) l" using assms(1) by simp
  finally have "drop a l = seg l a b @ drop (Suc b) l" by (simp add: seg_def)
  then have "take a l @ drop a l = take a l @ seg l a b @ drop (Suc b) l" by simp
  then show ?thesis by simp
qed

lemma permuted_within_seg:
  assumes "permuted_within a b l l'" and "a \<le> Suc b" and "b < length l"
  shows "mset (seg l' a b) = mset (seg l a b)"
proof -
  from assms(1) have len: "length l' = length l" and m: "mset l' = mset l"
    and t: "take a l' = take a l" and d: "drop (Suc b) l' = drop (Suc b) l"
    by (simp_all add: permuted_within_def)
  have "mset l = mset (take a l) + mset (seg l a b) + mset (drop (Suc b) l)"
    using seg_decomp [OF assms(2,3)] by (metis mset_append add.assoc)
  moreover have "mset l' = mset (take a l') + mset (seg l' a b) + mset (drop (Suc b) l')"
    using seg_decomp [of a b l'] assms(2,3) len by (metis mset_append add.assoc)
  ultimately show ?thesis using m t d by simp
qed

lemma in_set_seg:
  assumes "b < length l"
  shows "x \<in> set (seg l a b) \<longleftrightarrow> (\<exists>k. a \<le> k \<and> k \<le> b \<and> x = l ! k)"
proof
  assume "x \<in> set (seg l a b)"
  then obtain i where i: "i < length (seg l a b)" and x: "seg l a b ! i = x"
    by (auto simp: in_set_conv_nth)
  from i have "i < Suc b - a" by (simp add: seg_def)
  moreover from i x assms have "x = l ! (a + i)" by (simp add: seg_def)
  ultimately show "\<exists>k. a \<le> k \<and> k \<le> b \<and> x = l ! k"
    by (intro exI [of _ "a + i"]) auto
next
  assume "\<exists>k. a \<le> k \<and> k \<le> b \<and> x = l ! k"
  then obtain k where k: "a \<le> k" "k \<le> b" "x = l ! k" by blast
  then have "k - a < length (seg l a b)" using assms by (simp add: seg_def)
  moreover have "seg l a b ! (k - a) = x" using k assms by (simp add: seg_def)
  ultimately show "x \<in> set (seg l a b)" by (auto simp: in_set_conv_nth)
qed

lemma permuted_within_transfer:
  assumes pw: "permuted_within a b l l'" and ab: "a \<le> Suc b" and b: "b < length l"
    and P: "\<forall>k. a \<le> k \<and> k \<le> b \<longrightarrow> P (l ! k)"
  shows "\<forall>k. a \<le> k \<and> k \<le> b \<longrightarrow> P (l' ! k)"
proof (intro allI impI)
  fix k assume k: "a \<le> k \<and> k \<le> b"
  from pw have len: "length l' = length l" by (simp add: permuted_within_def)
  have "l' ! k \<in> set (seg l' a b)" using k b len by (auto simp: in_set_seg)
  also have "set (seg l' a b) = set (seg l a b)"
    using permuted_within_seg [OF pw ab b] by (rule mset_eq_setD)
  finally obtain k' where "a \<le> k'" "k' \<le> b" "l' ! k = l ! k'"
    using b by (auto simp: in_set_seg)
  with P show "P (l' ! k)" by auto
qed

lemma keyat_swap:
  assumes "0 \<le> i" "i < int (length l)" "0 \<le> j" "j < int (length l)"
    and "0 \<le> k" "k < int (length l)"
  shows "keyat (l[nat i := l ! nat j, nat j := l ! nat i]) k =
           (if k = j then keyat l i else if k = i then keyat l j else keyat l k)"
  using assms by (auto simp: keyat_def nth_list_update)

lemma points2_swap:
  assumes "points2 l" "i < length l" "j < length l"
  shows "points2 (l[i := l ! j, j := l ! i])"
  using assms by (auto simp: points2_def list_all_length nth_list_update)

lemma partition_loop_correct:
  assumes "points2 l" and "0 \<le> first" and "last' < int (length l)"
    and "first \<le> ivar" and "jvar \<le> last'"
    and "ivar \<le> last' + 1" and "first - 1 \<le> jvar"
    and "\<forall>k. first \<le> k \<and> k < ivar \<longrightarrow> keyat l k \<le> pivot"
    and "\<forall>k. jvar < k \<and> k \<le> last' \<longrightarrow> pivot \<le> keyat l k"
    and "ivar < jvar \<longrightarrow> (\<exists>m. ivar \<le> m \<and> m \<le> last' \<and> pivot \<le> keyat l m)
                          \<and> (\<exists>m. first \<le> m \<and> m \<le> jvar \<and> keyat l m \<le> pivot)"
  shows "\<exists>l' i j. partition_loop l 0 1 pivot ivar jvar = Inr (l', i, j)
           \<and> points2 l' \<and> permuted_within (nat first) (nat last') l l'
           \<and> ivar \<le> i \<and> j \<le> jvar \<and> j \<le> i \<and> i \<le> last' + 1 \<and> first - 1 \<le> j
           \<and> (\<forall>k. first \<le> k \<and> k < i \<longrightarrow> keyat l' k \<le> pivot)
           \<and> (\<forall>k. j < k \<and> k \<le> last' \<longrightarrow> pivot \<le> keyat l' k)
           \<and> (ivar < jvar \<longrightarrow> first < i \<and> j < last')"
  using assms(1,3-10)
proof (induction "nat (jvar - ivar)" arbitrary: l ivar jvar rule: less_induct)
  case less
  note pts = less.prems(1) and ln = less.prems(2) and fi = less.prems(3)
    and jl = less.prems(4) and iu = less.prems(5) and jd = less.prems(6)
    and A = less.prems(7) and B = less.prems(8) and S = less.prems(9)
  show ?case
  proof (cases "ivar < jvar")
    case False
    then have "partition_loop l 0 1 pivot ivar jvar = Inr (l, ivar, jvar)"
      by (subst partition_loop.simps) simp
    with False pts A B iu jd show ?thesis
      by (auto simp: permuted_within_refl)
  next
    case True
    with S obtain m1 m2 where
      m1: "ivar \<le> m1" "m1 \<le> last'" "pivot \<le> keyat l m1" and
      m2: "first \<le> m2" "m2 \<le> jvar" "keyat l m2 \<le> pivot"
      by blast
    have iv0: "0 \<le> ivar" using assms(2) fi by simp
    have m1n: "m1 < int (length l)" using m1(2) ln by simp
    have m20: "0 \<le> m2" using m2(1) assms(2) by simp
    have jvn: "jvar < int (length l)" using jl ln by simp
    from scan_up_stops [OF pts iv0 m1(1) m1n m1(3)]
    obtain i where i: "scan_up l 0 pivot ivar = Inr i" "ivar \<le> i" "i \<le> m1"
      "pivot \<le> keyat l i" "\<forall>k. ivar \<le> k \<and> k < i \<longrightarrow> keyat l k < pivot"
      by blast
    from scan_down_stops [OF pts m20 m2(2) jvn m2(3)]
    obtain j where j: "scan_down l 0 pivot jvar = Inr j" "m2 \<le> j" "j \<le> jvar"
      "keyat l j \<le> pivot" "\<forall>k. j < k \<and> k \<le> jvar \<longrightarrow> pivot < keyat l k"
      by blast
    have A': "\<forall>k. first \<le> k \<and> k < i \<longrightarrow> keyat l k \<le> pivot"
    proof (intro allI impI)
      fix k assume k: "first \<le> k \<and> k < i"
      show "keyat l k \<le> pivot"
      proof (cases "k < ivar")
        case True
        with k A show ?thesis by blast
      next
        case False
        with k have "ivar \<le> k \<and> k < i" by simp
        with i(5) have "keyat l k < pivot" by blast
        then show ?thesis by simp
      qed
    qed
    have B': "\<forall>k. j < k \<and> k \<le> last' \<longrightarrow> pivot \<le> keyat l k"
    proof (intro allI impI)
      fix k assume k: "j < k \<and> k \<le> last'"
      show "pivot \<le> keyat l k"
      proof (cases "jvar < k")
        case True
        with k B show ?thesis by blast
      next
        case False
        with k have "j < k \<and> k \<le> jvar" by simp
        with j(5) have "pivot < keyat l k" by blast
        then show ?thesis by simp
      qed
    qed
    have ib: "0 \<le> i" "i < int (length l)" using i(2,3) m1n iv0 by auto
    have jb: "0 \<le> j" "j < int (length l)" using j(2,3) m20 jvn by auto
    show ?thesis
    proof (cases "i \<le> j")
      case False
      have "partition_loop l 0 1 pivot i j = Inr (l, i, j)"
        using False by (subst partition_loop.simps) simp
      then have "partition_loop l 0 1 pivot ivar jvar = Inr (l, i, j)"
        using True i(1) j(1) False by (subst partition_loop.simps) simp
      moreover have "first < i" using False j(2) m2(1) by simp
      moreover have "j < last'" using False i(3) m1(2) by simp
      moreover have "i \<le> last' + 1" "first - 1 \<le> j" using i(3) m1(2) j(2) m2(1) by auto
      ultimately show ?thesis
        using pts A' B' i(2) j(3) False by (auto simp: permuted_within_refl)
    next
      case ij: True
      let ?l = "l[nat i := l ! nat j, nat j := l ! nat i]"
      have ex: "exchange l 0 1 i j = Inr ?l"
        using pts ib jb by (intro exchange_swap)
      have pts': "points2 ?l" using pts ib jb by (intro points2_swap) auto
      have len': "length ?l = length l" by simp
      have pw: "permuted_within (nat first) (nat last') l ?l"
        using ib jb i(2,3) m1(2) fi j(2,3) m2(1) jl assms(2) ln
        by (intro permuted_within_swap) auto
      have key: "\<And>k. 0 \<le> k \<Longrightarrow> k < int (length l) \<Longrightarrow>
               keyat ?l k = (if k = j then keyat l i else if k = i then keyat l j else keyat l k)"
        using ib jb by (intro keyat_swap) auto
      have A2: "\<forall>k. first \<le> k \<and> k < i + 1 \<longrightarrow> keyat ?l k \<le> pivot"
      proof (intro allI impI)
        fix k assume k: "first \<le> k \<and> k < i + 1"
        then have kb: "0 \<le> k" "k < int (length l)" using assms(2) ib by auto
        show "keyat ?l k \<le> pivot"
        proof (cases "k = i")
          case True
          then show ?thesis using key [OF kb] j(4) i(4) by auto
        next
          case False
          with k ij have "k < i" "k \<noteq> j" by auto
          with key [OF kb] A' k show ?thesis by auto
        qed
      qed
      have B2: "\<forall>k. j - 1 < k \<and> k \<le> last' \<longrightarrow> pivot \<le> keyat ?l k"
      proof (intro allI impI)
        fix k assume k: "j - 1 < k \<and> k \<le> last'"
        then have kb: "0 \<le> k" "k < int (length l)" using ln jb by auto
        show "pivot \<le> keyat ?l k"
        proof (cases "k = j")
          case True
          then show ?thesis using key [OF kb] i(4) by auto
        next
          case False
          with k ij have "j < k" "k \<noteq> i" by auto
          with key [OF kb] B' k show ?thesis by auto
        qed
      qed
      have S2: "i + 1 < j - 1 \<longrightarrow>
                  (\<exists>m. i + 1 \<le> m \<and> m \<le> last' \<and> pivot \<le> keyat ?l m)
                  \<and> (\<exists>m. first \<le> m \<and> m \<le> j - 1 \<and> keyat ?l m \<le> pivot)"
      proof
        assume lt: "i + 1 < j - 1"
        have "pivot \<le> keyat ?l j" using key [OF jb] i(4) by simp
        moreover have "keyat ?l i \<le> pivot" using key [OF ib] j(4) i(4) by auto
        ultimately show "(\<exists>m. i + 1 \<le> m \<and> m \<le> last' \<and> pivot \<le> keyat ?l m)
                  \<and> (\<exists>m. first \<le> m \<and> m \<le> j - 1 \<and> keyat ?l m \<le> pivot)"
          using lt j(3) jl i(2) fi
          by (intro conjI exI [of _ j] exI [of _ i]) auto
      qed
      have dec: "nat (j - 1 - (i + 1)) < nat (jvar - ivar)"
        using True i(2) j(3) by simp
      have fi2: "first \<le> i + 1" using fi i(2) by simp
      have jl2: "j - 1 \<le> last'" using jl j(3) by simp
      have ln': "last' < int (length ?l)" using ln by simp
      have iu2: "i + 1 \<le> last' + 1" using i(3) m1(2) by simp
      have jd2: "first - 1 \<le> j - 1" using j(2) m2(1) by simp
      from less.hyps [OF dec pts' ln' fi2 jl2 iu2 jd2 A2 B2 S2]
      obtain l' i' j' where r:
        "partition_loop ?l 0 1 pivot (i + 1) (j - 1) = Inr (l', i', j')"
        "points2 l'" "permuted_within (nat first) (nat last') ?l l'"
        "i + 1 \<le> i'" "j' \<le> j - 1" "j' \<le> i'" "i' \<le> last' + 1" "first - 1 \<le> j'"
        "\<forall>k. first \<le> k \<and> k < i' \<longrightarrow> keyat l' k \<le> pivot"
        "\<forall>k. j' < k \<and> k \<le> last' \<longrightarrow> pivot \<le> keyat l' k"
        by blast
      have "partition_loop l 0 1 pivot ivar jvar = Inr (l', i', j')"
        using True i(1) j(1) ij ex r(1) by (subst partition_loop.simps) simp
      moreover have "permuted_within (nat first) (nat last') l l'"
        using pw r(3) by (rule permuted_within_trans)
      moreover have "first < i'" "j' < last'" "ivar \<le> i'" "j' \<le> jvar"
        using r(4,5) i(2) fi j(3) jl by auto
      ultimately show ?thesis using r(2,6,7,8,9,10) by auto
    qed
  qed
qed

lemma pw_nth_outside:
  assumes "permuted_within (nat a) (nat b) l l'" and "0 \<le> k" and "k < int (length l)"
    and "k < a \<or> (0 \<le> b \<and> b < k)"
  shows "l' ! nat k = l ! nat k"
proof -
  from assms(2,4) have o: "nat k < nat a \<or> nat b < nat k" by auto
  from assms(2,3) have "nat k < length l" by simp
  with assms(1) o show ?thesis by (intro permuted_within_outside [of "nat a" "nat b"])
qed

lemma pw_transfer:
  assumes pw: "permuted_within (nat a) (nat b) l l'" and "0 \<le> a" and "a \<le> b"
    and "b < int (length l)"
    and P: "\<forall>k. a \<le> k \<and> k \<le> b \<longrightarrow> P (l ! nat k)"
  shows "\<forall>k. a \<le> k \<and> k \<le> b \<longrightarrow> P (l' ! nat k)"
proof -
  have "\<forall>k. nat a \<le> k \<and> k \<le> nat b \<longrightarrow> P (l ! k)"
  proof (intro allI impI)
    fix k assume "nat a \<le> k \<and> k \<le> nat b"
    then have "a \<le> int k \<and> int k \<le> b" using assms(2,3) by auto
    with P have "P (l ! nat (int k))" by blast
    then show "P (l ! k)" by simp
  qed
  from permuted_within_transfer [OF pw _ _ this] assms(2,3,4)
  have r: "\<forall>k. nat a \<le> k \<and> k \<le> nat b \<longrightarrow> P (l' ! k)" by auto
  show ?thesis
  proof (intro allI impI)
    fix k assume "a \<le> k \<and> k \<le> b"
    then have "nat a \<le> nat k \<and> nat k \<le> nat b" using assms(2) by auto
    with r show "P (l' ! nat k)" by blast
  qed
qed

lemma seg_snoc:
  assumes "a \<le> Suc b" and "Suc b < length l"
  shows "seg l a (Suc b) = seg l a b @ [l ! Suc b]"
proof -
  have "Suc (Suc b) - a = Suc (Suc b - a)" using assms(1) by simp
  moreover have "Suc b - a < length (drop a l)" using assms by simp
  ultimately have "seg l a (Suc b) = take (Suc b - a) (drop a l) @ [drop a l ! (Suc b - a)]"
    by (simp add: seg_def take_Suc_conv_app_nth)
  moreover have "drop a l ! (Suc b - a) = l ! Suc b" using assms by simp
  ultimately show ?thesis by (simp add: seg_def)
qed

text \<open>The last element of a sorted segment takes the only large element with it.\<close>

lemma sorted_snoc_bound:
  fixes key :: "'a \<Rightarrow> int"
  assumes m: "mset (Z @ [z]) = mset (Y @ [x])"
    and Y: "\<forall>y \<in> set Y. key y \<le> p"
    and Z: "\<forall>w \<in> set Z. key w \<le> key z"
  shows "\<forall>w \<in> set Z. key w \<le> p"
proof (cases "key x \<le> p")
  case True
  from m have "set (Z @ [z]) = set (Y @ [x])" by (rule mset_eq_setD)
  with True Y show ?thesis by auto
next
  case False
  from m have s: "set (Z @ [z]) = set (Y @ [x])" by (rule mset_eq_setD)
  then have "x \<in> set Z \<or> x = z" by auto
  then have "key x \<le> key z" using Z by auto
  with False have "p < key z" by simp
  moreover from s have "z \<in> set Y \<or> z = x" by auto
  ultimately have "z = x" using Y by auto
  with m have "mset Z = mset Y" by simp
  then have "set Z = set Y" by (rule mset_eq_setD)
  with Y show ?thesis by simp
qed

lemma after_left_sort:
  assumes f0: "0 \<le> first" and fi: "first \<le> i" and ji: "j \<le> i" and jl: "j \<le> last'"
    and ln: "last' < int (length l1)" and iu: "i \<le> last' + 1"
    and F1: "\<forall>k. first \<le> k \<and> k < i \<longrightarrow> keyat l1 k \<le> p"
    and F2: "\<forall>k. j < k \<and> k \<le> last' \<longrightarrow> p \<le> keyat l1 k"
    and left: "(\<not> first < j \<and> l2 = l1)
               \<or> (first < j \<and> permuted_within (nat first) (nat j) l1 l2
                   \<and> sorted_between l2 first j)"
  shows "sorted_between l2 first (i - 1)
         \<and> (\<forall>k k'. first \<le> k \<and> k < i \<and> i \<le> k' \<and> k' \<le> last' \<longrightarrow> keyat l2 k \<le> keyat l2 k')"
  using left
proof
  assume a: "\<not> first < j \<and> l2 = l1"
  have So: "sorted_between l2 first (i - 1)"
    unfolding sorted_between_def
  proof (intro allI impI)
    fix k k' assume k: "first \<le> k \<and> k \<le> k' \<and> k' \<le> i - 1"
    show "keyat l2 k \<le> keyat l2 k'"
    proof (cases "k = k'")
      case True
      then show ?thesis by simp
    next
      case False
      with k a have "j < k' \<and> k' \<le> last'" using iu by auto
      with F2 have "p \<le> keyat l1 k'" by blast
      moreover from k have "first \<le> k \<and> k < i" by auto
      with F1 have "keyat l1 k \<le> p" by blast
      ultimately show ?thesis using a by simp
    qed
  qed
  have X: "\<forall>k k'. first \<le> k \<and> k < i \<and> i \<le> k' \<and> k' \<le> last' \<longrightarrow> keyat l2 k \<le> keyat l2 k'"
  proof (intro allI impI)
    fix k k' assume k: "first \<le> k \<and> k < i \<and> i \<le> k' \<and> k' \<le> last'"
    with a ji have "j < k' \<and> k' \<le> last'" by auto
    with F2 have "p \<le> keyat l1 k'" by blast
    moreover from k F1 have "keyat l1 k \<le> p" by blast
    ultimately show "keyat l2 k \<le> keyat l2 k'" using a by simp
  qed
  from So X show ?thesis by blast
next
  assume b: "first < j \<and> permuted_within (nat first) (nat j) l1 l2 \<and> sorted_between l2 first j"
  then have fj: "first < j" and pw: "permuted_within (nat first) (nat j) l1 l2"
    and srt: "sorted_between l2 first j" by simp_all
  have jn: "j < int (length l1)" using jl ln by simp
  have len: "length l2 = length l1" using pw by (simp add: permuted_within_def)
  have same: "\<And>k. j < k \<Longrightarrow> k \<le> last' \<Longrightarrow> keyat l2 k = keyat l1 k"
  proof -
    fix k assume "j < k" "k \<le> last'"
    then have "l2 ! nat k = l1 ! nat k"
      using pw f0 fj ln by (intro pw_nth_outside [of first j]) auto
    then show "keyat l2 k = keyat l1 k" by (simp add: keyat_def)
  qed
  show ?thesis
  proof (cases "j < i")
    case True
    have "\<forall>k. first \<le> k \<and> k \<le> j \<longrightarrow> hd (l1 ! nat k) \<le> p"
      using F1 True by (auto simp: keyat_def)
    from pw_transfer [OF pw f0 _ jn this] fj
    have low: "\<forall>k. first \<le> k \<and> k \<le> j \<longrightarrow> keyat l2 k \<le> p" by (simp add: keyat_def)
    have F1': "\<forall>k. first \<le> k \<and> k < i \<longrightarrow> keyat l2 k \<le> p"
    proof (intro allI impI)
      fix k assume k: "first \<le> k \<and> k < i"
      show "keyat l2 k \<le> p"
      proof (cases "k \<le> j")
        case True
        with k low show ?thesis by blast
      next
        case False
        with k iu have "j < k" "k \<le> last'" by auto
        from same [OF this] F1 k show ?thesis by auto
      qed
    qed
    have F2': "\<forall>k. j < k \<and> k \<le> last' \<longrightarrow> p \<le> keyat l2 k"
      using same F2 by auto
    have So: "sorted_between l2 first (i - 1)"
      unfolding sorted_between_def
    proof (intro allI impI)
      fix k k' assume k: "first \<le> k \<and> k \<le> k' \<and> k' \<le> i - 1"
      show "keyat l2 k \<le> keyat l2 k'"
      proof (cases "k' \<le> j")
        case True
        with k srt show ?thesis by (auto simp: sorted_between_def)
      next
        case False
        with k iu have "j < k' \<and> k' \<le> last'" by auto
        with F2' have "p \<le> keyat l2 k'" by blast
        moreover from k have "first \<le> k \<and> k < i" by auto
        with F1' have "keyat l2 k \<le> p" by blast
        ultimately show ?thesis by simp
      qed
    qed
    have X: "\<forall>k k'. first \<le> k \<and> k < i \<and> i \<le> k' \<and> k' \<le> last' \<longrightarrow> keyat l2 k \<le> keyat l2 k'"
    proof (intro allI impI)
      fix k k' assume k: "first \<le> k \<and> k < i \<and> i \<le> k' \<and> k' \<le> last'"
      with True have "j < k' \<and> k' \<le> last'" by auto
      with F2' have "p \<le> keyat l2 k'" by blast
      moreover from k F1' have "keyat l2 k \<le> p" by blast
      ultimately show "keyat l2 k \<le> keyat l2 k'" by simp
    qed
    from So X show ?thesis by blast
  next
    case False
    with ji have eq: "j = i" by simp
    have So: "sorted_between l2 first (i - 1)"
      using srt eq by (auto simp: sorted_between_def)
    define b where "b = nat i - 1"
    have Sb: "Suc b = nat i" using fj f0 eq by (simp add: b_def)
    have ab: "nat first \<le> Suc b" using fj eq Sb by simp
    have bl1: "Suc b < length l1" using Sb jn eq by simp
    have bl2: "Suc b < length l2" using bl1 len by simp
    have pw': "permuted_within (nat first) (Suc b) l1 l2" using pw eq Sb by simp
    have "mset (seg l2 (nat first) (Suc b)) = mset (seg l1 (nat first) (Suc b))"
      using pw' ab bl1 by (intro permuted_within_seg) auto
    then have m: "mset (seg l2 (nat first) b @ [l2 ! Suc b])
                  = mset (seg l1 (nat first) b @ [l1 ! Suc b])"
      using seg_snoc [OF ab bl1] seg_snoc [OF ab bl2] by simp
    have Y: "\<forall>y \<in> set (seg l1 (nat first) b). hd y \<le> p"
    proof
      fix y assume "y \<in> set (seg l1 (nat first) b)"
      then obtain k where k: "nat first \<le> k" "k \<le> b" "y = l1 ! k"
        using bl1 by (auto simp: in_set_seg)
      then have "first \<le> int k \<and> int k < i" using Sb f0 by auto
      with F1 have "keyat l1 (int k) \<le> p" by blast
      with k show "hd y \<le> p" by (simp add: keyat_def)
    qed
    have Z: "\<forall>w \<in> set (seg l2 (nat first) b). hd w \<le> hd (l2 ! Suc b)"
    proof
      fix w assume "w \<in> set (seg l2 (nat first) b)"
      then obtain k where k: "nat first \<le> k" "k \<le> b" "w = l2 ! k"
        using bl2 by (auto simp: in_set_seg)
      then have "first \<le> int k \<and> int k \<le> i \<and> i \<le> j" using Sb f0 eq by auto
      with srt have "keyat l2 (int k) \<le> keyat l2 i" by (auto simp: sorted_between_def)
      with k Sb show "hd w \<le> hd (l2 ! Suc b)" by (simp add: keyat_def)
    qed
    from sorted_snoc_bound [OF m Y Z]
    have W: "\<forall>w \<in> set (seg l2 (nat first) b). hd w \<le> p" .
    have F1': "\<forall>k. first \<le> k \<and> k < i \<longrightarrow> keyat l2 k \<le> p"
    proof (intro allI impI)
      fix k assume k: "first \<le> k \<and> k < i"
      then have "nat first \<le> nat k \<and> nat k \<le> b" using Sb f0 by auto
      then have "l2 ! nat k \<in> set (seg l2 (nat first) b)" using bl2 by (auto simp: in_set_seg)
      with W show "keyat l2 k \<le> p" by (auto simp: keyat_def)
    qed
    have X: "\<forall>k k'. first \<le> k \<and> k < i \<and> i \<le> k' \<and> k' \<le> last' \<longrightarrow> keyat l2 k \<le> keyat l2 k'"
    proof (intro allI impI)
      fix k k' assume k: "first \<le> k \<and> k < i \<and> i \<le> k' \<and> k' \<le> last'"
      show "keyat l2 k \<le> keyat l2 k'"
      proof (cases "k' = i")
        case True
        with k srt eq show ?thesis by (auto simp: sorted_between_def)
      next
        case False
        with k eq have "j < k'" "k' \<le> last'" by auto
        from same [OF this] F2 this have "p \<le> keyat l2 k'" by auto
        moreover from k F1' have "keyat l2 k \<le> p" by blast
        ultimately show ?thesis by simp
      qed
    qed
    from So X show ?thesis by blast
  qed
qed

lemma after_right_sort:
  assumes f0: "0 \<le> first" and fi: "first \<le> i" and iu: "i \<le> last' + 1"
    and ln: "last' < int (length l2)"
    and So: "sorted_between l2 first (i - 1)"
    and X: "\<forall>k k'. first \<le> k \<and> k < i \<and> i \<le> k' \<and> k' \<le> last' \<longrightarrow> keyat l2 k \<le> keyat l2 k'"
    and right: "(\<not> i < last' \<and> r = l2)
               \<or> (i < last' \<and> permuted_within (nat i) (nat last') l2 r
                   \<and> sorted_between r i last')"
  shows "sorted_between r first last'"
  using right
proof
  assume a: "\<not> i < last' \<and> r = l2"
  show ?thesis
    unfolding sorted_between_def
  proof (intro allI impI)
    fix k k' assume k: "first \<le> k \<and> k \<le> k' \<and> k' \<le> last'"
    show "keyat r k \<le> keyat r k'"
    proof (cases "k' < i")
      case True
      with k So a show ?thesis by (auto simp: sorted_between_def)
    next
      case False
      with k a have k': "k' = i" "i \<le> last'" by auto
      show ?thesis
      proof (cases "k < i")
        case True
        with k k' X a show ?thesis by auto
      next
        case False
        with k k' show ?thesis by simp
      qed
    qed
  qed
next
  assume b: "i < last' \<and> permuted_within (nat i) (nat last') l2 r \<and> sorted_between r i last'"
  then have il: "i < last'" and pw: "permuted_within (nat i) (nat last') l2 r"
    and srt: "sorted_between r i last'" by simp_all
  have i0: "0 \<le> i" using f0 fi by simp
  have same: "\<And>k. first \<le> k \<Longrightarrow> k < i \<Longrightarrow> keyat r k = keyat l2 k"
  proof -
    fix k assume "first \<le> k" "k < i"
    then have "r ! nat k = l2 ! nat k"
      using pw f0 il ln by (intro pw_nth_outside [of i last']) auto
    then show "keyat r k = keyat l2 k" by (simp add: keyat_def)
  qed
  show ?thesis
    unfolding sorted_between_def
  proof (intro allI impI)
    fix k k' assume k: "first \<le> k \<and> k \<le> k' \<and> k' \<le> last'"
    show "keyat r k \<le> keyat r k'"
    proof (cases "k' < i")
      case True
      with k have "keyat r k = keyat l2 k" "keyat r k' = keyat l2 k'"
        by (auto intro: same)
      moreover from True k So have "keyat l2 k \<le> keyat l2 k'"
        by (auto simp: sorted_between_def)
      ultimately show ?thesis by simp
    next
      case False
      show ?thesis
      proof (cases "k < i")
        case kl: True
        with k have eqk: "keyat r k = keyat l2 k" by (auto intro: same)
        have "\<forall>k''. i \<le> k'' \<and> k'' \<le> last' \<longrightarrow> keyat l2 k \<le> hd (l2 ! nat k'')"
          using X k kl by (auto simp: keyat_def)
        from pw_transfer [OF pw i0 _ ln this] il
        have "\<forall>k''. i \<le> k'' \<and> k'' \<le> last' \<longrightarrow> keyat l2 k \<le> hd (r ! nat k'')" by simp
        with False k have "keyat l2 k \<le> keyat r k'" by (auto simp: keyat_def)
        with eqk show ?thesis by simp
      next
        case False
        with k srt show ?thesis by (auto simp: sorted_between_def)
      qed
    qed
  qed
qed

lemma quicksort_correct:
  assumes "points2 l" and "0 \<le> first" and "first \<le> last'" and "last' < int (length l)"
  shows "\<exists>r. ordenatewithquicksort 1 2 l first last' = Some (Inr r) \<and> points2 r
           \<and> permuted_within (nat first) (nat last') l r \<and> sorted_between r first last'"
  using assms
proof (induction "nat (last' - first)" arbitrary: l first last' rule: less_induct)
  case less
  note pts = less.prems(1) and f0 = less.prems(2) and fl = less.prems(3)
    and ln = less.prems(4)
  define p where "p = (keyat l first + keyat l last') div 2"
  have ga: "get2 l first 0 = Inr (keyat l first)"
    using pts f0 fl ln by (intro get2_key) auto
  have gb: "get2 l last' 0 = Inr (keyat l last')"
    using pts f0 fl ln by (intro get2_key) auto
  have S: "first < last' \<longrightarrow> (\<exists>m. first \<le> m \<and> m \<le> last' \<and> p \<le> keyat l m)
                          \<and> (\<exists>m. first \<le> m \<and> m \<le> last' \<and> keyat l m \<le> p)"
  proof
    assume "first < last'"
    show "(\<exists>m. first \<le> m \<and> m \<le> last' \<and> p \<le> keyat l m)
          \<and> (\<exists>m. first \<le> m \<and> m \<le> last' \<and> keyat l m \<le> p)"
    proof (cases "keyat l first \<le> keyat l last'")
      case True
      then have "keyat l first \<le> p" "p \<le> keyat l last'" by (simp_all add: p_def)
      with fl show ?thesis by (intro conjI exI [of _ last'] exI [of _ first]) auto
    next
      case False
      then have "keyat l last' \<le> p" "p \<le> keyat l first" by (simp_all add: p_def)
      with fl show ?thesis by (intro conjI exI [of _ last'] exI [of _ first]) auto
    qed
  qed
  have "\<exists>l' i j. partition_loop l 0 1 p first last' = Inr (l', i, j)
           \<and> points2 l' \<and> permuted_within (nat first) (nat last') l l'
           \<and> first \<le> i \<and> j \<le> last' \<and> j \<le> i \<and> i \<le> last' + 1 \<and> first - 1 \<le> j
           \<and> (\<forall>k. first \<le> k \<and> k < i \<longrightarrow> keyat l' k \<le> p)
           \<and> (\<forall>k. j < k \<and> k \<le> last' \<longrightarrow> p \<le> keyat l' k)
           \<and> (first < last' \<longrightarrow> first < i \<and> j < last')"
    using pts f0 ln fl S by (intro partition_loop_correct) auto
  then obtain l1 i j where part: "partition_loop l 0 1 p first last' = Inr (l1, i, j)"
    and pts1: "points2 l1" and pw1: "permuted_within (nat first) (nat last') l l1"
    and fi: "first \<le> i" and jl: "j \<le> last'" and ji: "j \<le> i" and iu: "i \<le> last' + 1"
    and jd: "first - 1 \<le> j"
    and F1: "\<forall>k. first \<le> k \<and> k < i \<longrightarrow> keyat l1 k \<le> p"
    and F2: "\<forall>k. j < k \<and> k \<le> last' \<longrightarrow> p \<le> keyat l1 k"
    and prog: "first < last' \<longrightarrow> first < i \<and> j < last'"
    by blast
  have len1: "length l1 = length l" using pw1 by (simp add: permuted_within_def)
  have ln1: "last' < int (length l1)" using ln len1 by simp
  have unfold: "ordenatewithquicksort 1 2 l first last' =
      Option.bind
        (if first < j then ordenatewithquicksort 1 2 l1 first j else Some (Inr l1))
        (\<lambda>r. case r of
                Inl e \<Rightarrow> Some (Inl e)
              | Inr lval2 \<Rightarrow>
                  if last' > i then ordenatewithquicksort 1 2 lval2 i last'
                  else Some (Inr lval2))"
    using ga gb part by (subst ordenatewithquicksort.simps) (simp add: p_def)
  have "\<exists>l2. (if first < j then ordenatewithquicksort 1 2 l1 first j else Some (Inr l1))
               = Some (Inr l2)
           \<and> points2 l2 \<and> permuted_within (nat first) (nat last') l1 l2
           \<and> ((\<not> first < j \<and> l2 = l1)
               \<or> (first < j \<and> permuted_within (nat first) (nat j) l1 l2
                   \<and> sorted_between l2 first j))"
  proof (cases "first < j")
    case False
    with pts1 show ?thesis by (auto simp: permuted_within_refl)
  next
    case True
    with jl have "first < last'" by simp
    with prog have "j < last'" by simp
    then have dec: "nat (j - first) < nat (last' - first)" using True by simp
    have "first \<le> j" using True by simp
    moreover have "j < int (length l1)" using jl ln1 by simp
    ultimately obtain l2 where
      q: "ordenatewithquicksort 1 2 l1 first j = Some (Inr l2)" "points2 l2"
         "permuted_within (nat first) (nat j) l1 l2" "sorted_between l2 first j"
      using less.hyps [OF dec pts1 f0] by blast
    have "permuted_within (nat first) (nat last') l1 l2"
      using q(3) jl by (intro permuted_within_mono [OF q(3)]) auto
    with True q show ?thesis by auto
  qed
  then obtain l2 where
    lq: "(if first < j then ordenatewithquicksort 1 2 l1 first j else Some (Inr l1))
           = Some (Inr l2)"
    and pts2: "points2 l2" and pw2: "permuted_within (nat first) (nat last') l1 l2"
    and left: "(\<not> first < j \<and> l2 = l1)
               \<or> (first < j \<and> permuted_within (nat first) (nat j) l1 l2
                   \<and> sorted_between l2 first j)"
    by blast
  have len2: "length l2 = length l1" using pw2 by (simp add: permuted_within_def)
  have ln2: "last' < int (length l2)" using ln1 len2 by simp
  from after_left_sort [OF f0 fi ji jl ln1 iu F1 F2 left]
  have So: "sorted_between l2 first (i - 1)"
    and X: "\<forall>k k'. first \<le> k \<and> k < i \<and> i \<le> k' \<and> k' \<le> last' \<longrightarrow> keyat l2 k \<le> keyat l2 k'"
    by blast+
  have "\<exists>r. (if last' > i then ordenatewithquicksort 1 2 l2 i last' else Some (Inr l2))
               = Some (Inr r)
           \<and> points2 r \<and> permuted_within (nat first) (nat last') l2 r
           \<and> ((\<not> i < last' \<and> r = l2)
               \<or> (i < last' \<and> permuted_within (nat i) (nat last') l2 r
                   \<and> sorted_between r i last'))"
  proof (cases "i < last'")
    case False
    with pts2 show ?thesis by (auto simp: permuted_within_refl)
  next
    case True
    with fi have "first < last'" by simp
    with prog have "first < i" by simp
    then have dec: "nat (last' - i) < nat (last' - first)" using True by simp
    have i0: "0 \<le> i" using f0 fi by simp
    have il: "i \<le> last'" using True by simp
    obtain r where
      q: "ordenatewithquicksort 1 2 l2 i last' = Some (Inr r)" "points2 r"
         "permuted_within (nat i) (nat last') l2 r" "sorted_between r i last'"
      using less.hyps [OF dec pts2 i0 il ln2] by blast
    have "permuted_within (nat first) (nat last') l2 r"
      using fi by (intro permuted_within_mono [OF q(3)]) auto
    with True q show ?thesis by auto
  qed
  then obtain r where
    rq: "(if last' > i then ordenatewithquicksort 1 2 l2 i last' else Some (Inr l2))
           = Some (Inr r)"
    and ptsr: "points2 r" and pwr: "permuted_within (nat first) (nat last') l2 r"
    and right: "(\<not> i < last' \<and> r = l2)
               \<or> (i < last' \<and> permuted_within (nat i) (nat last') l2 r
                   \<and> sorted_between r i last')"
    by blast
  have res: "ordenatewithquicksort 1 2 l first last' = Some (Inr r)"
    using unfold lq rq by simp
  have pw: "permuted_within (nat first) (nat last') l r"
    using pw1 pw2 pwr by (blast intro: permuted_within_trans)
  have "sorted_between r first last'"
    using after_right_sort [OF f0 fi iu ln2 So X right] .
  with res ptsr pw show ?case by blast
qed

text \<open>
  For every non-empty list of points, each a pair, the call with \<^verbatim>\<open>first = 0\<close> and
  \<^verbatim>\<open>last = len - 1\<close> returns: the recursion ends, no index is out of range, and the
  result is the same points ordered by x.
\<close>

lemma quicksort_sorts_by_x:
  assumes "lval \<noteq> []" and "\<forall>p \<in> set lval. length p = 2"
  shows "\<exists>r. ordenatewithquicksort 1 2 lval 0 (int (length lval) - 1) = Some (Inr r)
           \<and> sorted (map hd r) \<and> mset r = mset lval"
proof -
  have pts: "points2 lval" using assms(2) by (simp add: points2_def list_all_iff)
  have "(0::int) \<le> int (length lval) - 1" using assms(1) by (cases lval) auto
  from quicksort_correct [OF pts _ this]
  obtain r where r: "ordenatewithquicksort 1 2 lval 0 (int (length lval) - 1) = Some (Inr r)"
    and pw: "permuted_within (nat 0) (nat (int (length lval) - 1)) lval r"
    and srt: "sorted_between r 0 (int (length lval) - 1)"
    by auto
  from pw have len: "length r = length lval" and m: "mset r = mset lval"
    by (simp_all add: permuted_within_def)
  have "sorted (map hd r)"
    unfolding sorted_iff_nth_mono
  proof (intro allI impI)
    fix k k' assume k: "k \<le> k'" "k' < length (map hd r)"
    then have "0 \<le> int k \<and> int k \<le> int k' \<and> int k' \<le> int (length lval) - 1"
      using len by auto
    with srt have "keyat r (int k) \<le> keyat r (int k')"
      unfolding sorted_between_def by blast
    with k show "map hd r ! k \<le> map hd r ! k'" by (simp add: keyat_def)
  qed
  with r m show ?thesis by blast
qed

section \<open>The claims\<close>

subsection \<open>C2: rows of differing token counts\<close>

text \<open>
  C2 says that \<^verbatim>\<open>readinputfile\<close> rejects every file whose rows differ in their number
  of tokens, and never returns a table for one. The loop that transposes runs over
  \<^verbatim>\<open>range(len(cad1))\<close>, the length of the last row, so only a row shorter than the
  last one raises the \<^verbatim>\<open>IndexError\<close> that the handler reports
  (\<open>readinputfile_outcome\<close>; the file of three and then four tokens is rejected,
  \<open>readinputfile_long_last_row\<close>). A file of a row of four tokens followed by a row of
  three is accepted: the fourth token of the first row is dropped and a table of three
  columns is returned.
\<close>

theorem readinputfile_short_last_row:
  "readinputfile [''data.txt'' \<mapsto> ''1 2 3 4'' @ [CHR 0x0A] @ ''5 6 7'' @ [CHR 0x0A]] ''data.txt''
     = Inr [[''1'', ''5''], [''2'', ''6''], [''3'', ''7'']]"
  by (simp add: readinputfile_def read_loop.simps split_def py_isspace_def transposition_def)

subsection \<open>C9: transposing twice\<close>

text \<open>
  The counterexample to C9 as stated: the table of one row without tokens (a file of one
  blank line) is transposed to the table without columns, and transposing that reads
  the unbound \<^verbatim>\<open>cad1\<close>.
\<close>

theorem transpose_twice_blank_line:
  "transpose_table [[] :: string list] = Inr []
   \<and> transpose_twice [[] :: string list] = Inl UnboundLocalError"
  by (simp add: transpose_twice_def transpose_table_def last_row_def transposition_def)

text \<open>
  C9, amended: for every row-major table \<open>R\<close> that has at least one row and whose rows
  all have the same length, which is not zero, the transposition of \<^verbatim>\<open>readinputfile\<close>
  applied to its own output returns \<open>R\<close>.
\<close>

theorem transpose_twice_identity:
  assumes "R \<noteq> []" and "\<forall>r \<in> set R. length r = n" and "0 < n"
  shows "transpose_twice R = Inr R"
proof -
  let ?T = "map (\<lambda>i. map (\<lambda>r. r ! i) R) [0..<n]"
  from assms(1,2) have ln: "length (last R) = n" by simp
  have t1: "transpose_table R = Inr ?T"
    using assms ln by (simp add: transpose_table_eq list_all_iff)
  from assms(3) have Tne: "?T \<noteq> []" by simp
  have lastT: "length (last ?T) = length R"
    using assms(3) by (simp add: last_map)
  have allT: "list_all (\<lambda>c. length (last ?T) \<le> length c) ?T"
    unfolding lastT by (simp add: list_all_iff)
  have "map (\<lambda>j. map (\<lambda>c. c ! j) ?T) [0..<length R] = R"
  proof (rule nth_equalityI)
    show "length (map (\<lambda>j. map (\<lambda>c. c ! j) ?T) [0..<length R]) = length R" by simp
  next
    fix j assume "j < length (map (\<lambda>j. map (\<lambda>c. c ! j) ?T) [0..<length R])"
    then have j: "j < length R" by simp
    with assms(2) have lj: "length (R ! j) = n" by simp
    have "map (\<lambda>c. c ! j) ?T = R ! j"
      using j lj by (intro nth_equalityI) simp_all
    with j show "map (\<lambda>j. map (\<lambda>c. c ! j) ?T) [0..<length R] ! j = R ! j" by simp
  qed
  then have "transpose_table ?T = Inr R"
    using Tne allT lastT by (simp only: transpose_table_eq if_False if_True)
  with t1 show ?thesis by (simp add: transpose_twice_def)
qed

theorem transpose_twice_identity_witness:
  "[[''1'', ''2''], [''3'', ''4''], [''5'', ''6'']] \<noteq> []
   \<and> list_all (\<lambda>r. length r = 2) [[''1'', ''2''], [''3'', ''4''], [''5'', ''6'']] \<and> (0::nat) < 2
   \<and> transpose_twice [[''1'', ''2''], [''3'', ''4''], [''5'', ''6'']]
       = Inr [[''1'', ''2''], [''3'', ''4''], [''5'', ''6'']]"
  using transpose_twice_identity [of "[[''1'', ''2''], [''3'', ''4''], [''5'', ''6'']]" 2]
  by simp

subsection \<open>C4: the angles of a pie\<close>



subsection \<open>C6: the large-arc-flag\<close>




subsection \<open>C7: the offset of the percentage label\<close>




subsection \<open>C10: the colour column must be the last column\<close>

text \<open>
  C10: \<^verbatim>\<open>Piechart.printsvg\<close> returns slices only when \<^verbatim>\<open>int(colorfld)\<close> equals the
  number of columns of the table; whenever the two differ it prints the message
  "Incorrect input data" and exits with status 2, with no slice emitted, also when the
  column that \<^verbatim>\<open>colorfld\<close> names exists.
\<close>

theorem colorfld_must_be_last_column:
  "(int (length (listvalues pc)) \<noteq> colorfld pc
      \<longrightarrow> Piechart_printsvg pc = Inl (SystemExit [IncorrectInputData] 2))
   \<and> (\<forall>slices. Piechart_printsvg pc = Inr slices
      \<longrightarrow> int (length (listvalues pc)) = colorfld pc)"
  by (auto simp: Piechart_printsvg_def)

theorem colorfld_must_be_last_column_witness:
  "py_get [[''a'', ''b''], [''1'', ''3''], [''red'', ''blue''], [''x'', ''y'']] (3 - 1)
     = Inr [''red'', ''blue'']
   \<and> int (length [[''a'', ''b''], [''1'', ''3''], [''red'', ''blue''], [''x'', ''y'']]) \<noteq> 3
   \<and> pie_chartsvg 100 100 100
       [[''a'', ''b''], [''1'', ''3''], [''red'', ''blue''], [''x'', ''y'']] 2 1 3 False ''''
       = Inl (SystemExit [IncorrectInputData] 2)"
  using colorfld_must_be_last_column
    [of "\<lparr>xorigin = 100, yorigin = 100, radius = 100,
          listvalues = [[''a'', ''b''], [''1'', ''3''], [''red'', ''blue''], [''x'', ''y'']],
          values_fld = 2, labels = 1, colorfld = 3, legend = False, title = '''',
          sumvalues = 4, radianvalues = [pi / 2, 3 * pi / 2]\<rparr>"]
  by (simp add: pie_eval)

subsection \<open>C1: the regression of a perfect line\<close>

text \<open>
  C1 says that for X = 1, 2, 3, 4 and Y = 2, 4, 6, 8 the slope is 2 and the fitted
  points are the original Y values. The code computes the slope 2, from a covariance and
  a variance that are both truncated, but it fits through the truncated means 2 and 5:
  the fitted values are \<open>2 (x - 2) + 5\<close>, that is 3, 5, 7, 9.
\<close>

theorem regression_truncated_means:
  "bcomponent [[''1'', ''2'', ''3'', ''4''], [''2'', ''4'', ''6'', ''8'']] 1 2 = Inr 2
   \<and> getregressionline [[''1'', ''2'', ''3'', ''4''], [''2'', ''4'', ''6'', ''8'']] 1 2
       = Inr [[1, 3], [2, 5], [3, 7], [4, 9]]"
  by (simp add: reg_eval upt_rec)

subsection \<open>C8: all X values identical\<close>



subsection \<open>C3: the ticks of the Y axis\<close>



subsection \<open>C5: the points sorted by x\<close>

text \<open>
  C5 says that \<^verbatim>\<open>ordenatewithquicksort\<close>, called with \<^verbatim>\<open>first = 0\<close> and
  \<^verbatim>\<open>last = len - 1\<close>, leaves every point list ordered by x. The routine addresses the
  two components of a point by the column selectors of the input table,
  \<^verbatim>\<open>int(self.xcolumn) - 1\<close> and \<^verbatim>\<open>int(self.ycolumn) - 1\<close>, while every point is the pair
  \<^verbatim>\<open>[x, y]\<close>. For the table with the X data in column 1 and the Y data in column 3
  (\<^verbatim>\<open>--x=1 --y=3\<close>), \<^verbatim>\<open>Lineplot.printsvg\<close> builds the points \<^verbatim>\<open>[2, 0]\<close> and \<^verbatim>\<open>[1, 3]\<close> and
  calls the routine with \<^verbatim>\<open>first = 0\<close> and \<^verbatim>\<open>last = 1\<close>; the first exchange reads
  \<^verbatim>\<open>lval[0][2]\<close>, which raises \<^verbatim>\<open>IndexError\<close>: the list is left as 2, 1 and the program
  exits with status 2.
\<close>

theorem quicksort_y_in_third_column:
  "transformtocoordenates [[''2'', ''1''], [''a'', ''b''], [''5'', ''2'']] 1 3 5
     = Inr [[2, 0], [1, 3]]
   \<and> ordenatewithquicksort 1 3 [[2, 0], [1, 3]] 0 1 = Some (Inl IndexError)
   \<and> printsvg_lpointsordenate [[''2'', ''1''], [''a'', ''b''], [''5'', ''2'']] 1 3 5
     = Some (Inl (SystemExit [ColumnsMustMatchSelectors] 2))"
  by (simp add: sort_eval upt_rec)

end

